theory Spec2Isabelle
  imports Complex_Main "HOL-Library.Sublist" "HOL-Library.Code_Target_Nat"
begin

section \<open>Strings\<close>

text \<open>
  The source is TypeScript. A string is modelled as the list of its Unicode code
  points, each a natural number; a surrogate pair of the UTF-16 text is the one code
  point it encodes. The case mappings of the language work on code points. Its
  patterns, without the flag \<^verbatim>\<open>u\<close>, work on the 16-bit units, but those of the
  source name only ASCII characters and the classes \<^verbatim>\<open>\s\<close>, \<^verbatim>\<open>\w\<close> and \<^verbatim>\<open>.\<close>, and
  the two halves of a surrogate pair are, like the code point they encode, in none of
  these but \<^verbatim>\<open>.\<close>; so the patterns match the same texts in both views. A text of
  ASCII characters is written \<open>asc ''...''\<close>.
\<close>

type_synonym jstring = "nat list"

definition asc :: "string \<Rightarrow> jstring" where
  "asc s = map of_char s"

definition is_ascii :: "nat \<Rightarrow> bool" where
  "is_ascii c = (c < 128)"

text \<open>The ASCII letters: \<^verbatim>\<open>a\<close> to \<^verbatim>\<open>z\<close> are 0x61 to 0x7A, \<^verbatim>\<open>A\<close> to \<^verbatim>\<open>Z\<close> are 0x41 to 0x5A.\<close>

definition ascii_upper :: "nat \<Rightarrow> nat" where
  "ascii_upper c = (if 0x61 \<le> c \<and> c \<le> 0x7A then c - 0x20 else c)"

definition ascii_lower :: "nat \<Rightarrow> nat" where
  "ascii_lower c = (if 0x41 \<le> c \<and> c \<le> 0x5A then c + 0x20 else c)"

subsection \<open>The case mappings of Unicode\<close>

text \<open>
  \<^verbatim>\<open>toUpperCase\<close> and \<^verbatim>\<open>toLowerCase\<close> of a string follow the default case
  conversion of Unicode, independent of the locale: every code point is replaced by its
  full case mapping, which may be several code points (the upper-case form of U+00DF,
  the sharp s, is \<^verbatim>\<open>SS\<close>). The tables below are those of Unicode 14.0 for the code
  points outside ASCII. A mapping to several code points is an entry of
  \<open>upper_special\<close> or \<open>lower_special\<close>. The mappings to one code point are grouped
  in runs \<open>(first, last, step, image)\<close>: the code points \<open>first\<close>,
  \<open>first + step\<close>, ... up to \<open>last\<close> are mapped to \<open>image\<close>,
  \<open>image + step\<close>, ... in this order. A code point in no table is its own
  upper-case or lower-case form.
\<close>

definition upper_special :: "(nat \<times> nat list) list" where
  "upper_special =
     [(0xDF, [0x53, 0x53]), (0x149, [0x2BC, 0x4E]), (0x1F0, [0x4A, 0x30C]),
      (0x390, [0x399, 0x308, 0x301]), (0x3B0, [0x3A5, 0x308, 0x301]), (0x587, [0x535, 0x552]),
      (0x1E96, [0x48, 0x331]), (0x1E97, [0x54, 0x308]), (0x1E98, [0x57, 0x30A]),
      (0x1E99, [0x59, 0x30A]), (0x1E9A, [0x41, 0x2BE]), (0x1F50, [0x3A5, 0x313]),
      (0x1F52, [0x3A5, 0x313, 0x300]), (0x1F54, [0x3A5, 0x313, 0x301]), (0x1F56, [0x3A5, 0x313, 0x342]),
      (0x1F80, [0x1F08, 0x399]), (0x1F81, [0x1F09, 0x399]), (0x1F82, [0x1F0A, 0x399]),
      (0x1F83, [0x1F0B, 0x399]), (0x1F84, [0x1F0C, 0x399]), (0x1F85, [0x1F0D, 0x399]),
      (0x1F86, [0x1F0E, 0x399]), (0x1F87, [0x1F0F, 0x399]), (0x1F88, [0x1F08, 0x399]),
      (0x1F89, [0x1F09, 0x399]), (0x1F8A, [0x1F0A, 0x399]), (0x1F8B, [0x1F0B, 0x399]),
      (0x1F8C, [0x1F0C, 0x399]), (0x1F8D, [0x1F0D, 0x399]), (0x1F8E, [0x1F0E, 0x399]),
      (0x1F8F, [0x1F0F, 0x399]), (0x1F90, [0x1F28, 0x399]), (0x1F91, [0x1F29, 0x399]),
      (0x1F92, [0x1F2A, 0x399]), (0x1F93, [0x1F2B, 0x399]), (0x1F94, [0x1F2C, 0x399]),
      (0x1F95, [0x1F2D, 0x399]), (0x1F96, [0x1F2E, 0x399]), (0x1F97, [0x1F2F, 0x399]),
      (0x1F98, [0x1F28, 0x399]), (0x1F99, [0x1F29, 0x399]), (0x1F9A, [0x1F2A, 0x399]),
      (0x1F9B, [0x1F2B, 0x399]), (0x1F9C, [0x1F2C, 0x399]), (0x1F9D, [0x1F2D, 0x399]),
      (0x1F9E, [0x1F2E, 0x399]), (0x1F9F, [0x1F2F, 0x399]), (0x1FA0, [0x1F68, 0x399]),
      (0x1FA1, [0x1F69, 0x399]), (0x1FA2, [0x1F6A, 0x399]), (0x1FA3, [0x1F6B, 0x399]),
      (0x1FA4, [0x1F6C, 0x399]), (0x1FA5, [0x1F6D, 0x399]), (0x1FA6, [0x1F6E, 0x399]),
      (0x1FA7, [0x1F6F, 0x399]), (0x1FA8, [0x1F68, 0x399]), (0x1FA9, [0x1F69, 0x399]),
      (0x1FAA, [0x1F6A, 0x399]), (0x1FAB, [0x1F6B, 0x399]), (0x1FAC, [0x1F6C, 0x399]),
      (0x1FAD, [0x1F6D, 0x399]), (0x1FAE, [0x1F6E, 0x399]), (0x1FAF, [0x1F6F, 0x399]),
      (0x1FB2, [0x1FBA, 0x399]), (0x1FB3, [0x391, 0x399]), (0x1FB4, [0x386, 0x399]),
      (0x1FB6, [0x391, 0x342]), (0x1FB7, [0x391, 0x342, 0x399]), (0x1FBC, [0x391, 0x399]),
      (0x1FC2, [0x1FCA, 0x399]), (0x1FC3, [0x397, 0x399]), (0x1FC4, [0x389, 0x399]),
      (0x1FC6, [0x397, 0x342]), (0x1FC7, [0x397, 0x342, 0x399]), (0x1FCC, [0x397, 0x399]),
      (0x1FD2, [0x399, 0x308, 0x300]), (0x1FD3, [0x399, 0x308, 0x301]), (0x1FD6, [0x399, 0x342]),
      (0x1FD7, [0x399, 0x308, 0x342]), (0x1FE2, [0x3A5, 0x308, 0x300]), (0x1FE3, [0x3A5, 0x308, 0x301]),
      (0x1FE4, [0x3A1, 0x313]), (0x1FE6, [0x3A5, 0x342]), (0x1FE7, [0x3A5, 0x308, 0x342]),
      (0x1FF2, [0x1FFA, 0x399]), (0x1FF3, [0x3A9, 0x399]), (0x1FF4, [0x38F, 0x399]),
      (0x1FF6, [0x3A9, 0x342]), (0x1FF7, [0x3A9, 0x342, 0x399]), (0x1FFC, [0x3A9, 0x399]),
      (0xFB00, [0x46, 0x46]), (0xFB01, [0x46, 0x49]), (0xFB02, [0x46, 0x4C]),
      (0xFB03, [0x46, 0x46, 0x49]), (0xFB04, [0x46, 0x46, 0x4C]), (0xFB05, [0x53, 0x54]),
      (0xFB06, [0x53, 0x54]), (0xFB13, [0x544, 0x546]), (0xFB14, [0x544, 0x535]),
      (0xFB15, [0x544, 0x53B]), (0xFB16, [0x54E, 0x546]), (0xFB17, [0x544, 0x53D])]"

definition upper_runs :: "(nat \<times> nat \<times> nat \<times> nat) list" where
  "upper_runs =
     [(0xB5, 0xB5, 1, 0x39C), (0xE0, 0xF6, 1, 0xC0), (0xF8, 0xFE, 1, 0xD8),
      (0xFF, 0xFF, 1, 0x178), (0x101, 0x12F, 2, 0x100), (0x131, 0x131, 1, 0x49),
      (0x133, 0x137, 2, 0x132), (0x13A, 0x148, 2, 0x139), (0x14B, 0x177, 2, 0x14A),
      (0x17A, 0x17E, 2, 0x179), (0x17F, 0x17F, 1, 0x53), (0x180, 0x180, 1, 0x243),
      (0x183, 0x185, 2, 0x182), (0x188, 0x188, 1, 0x187), (0x18C, 0x18C, 1, 0x18B),
      (0x192, 0x192, 1, 0x191), (0x195, 0x195, 1, 0x1F6), (0x199, 0x199, 1, 0x198),
      (0x19A, 0x19A, 1, 0x23D), (0x19E, 0x19E, 1, 0x220), (0x1A1, 0x1A5, 2, 0x1A0),
      (0x1A8, 0x1A8, 1, 0x1A7), (0x1AD, 0x1AD, 1, 0x1AC), (0x1B0, 0x1B0, 1, 0x1AF),
      (0x1B4, 0x1B6, 2, 0x1B3), (0x1B9, 0x1B9, 1, 0x1B8), (0x1BD, 0x1BD, 1, 0x1BC),
      (0x1BF, 0x1BF, 1, 0x1F7), (0x1C5, 0x1C5, 1, 0x1C4), (0x1C6, 0x1C6, 1, 0x1C4),
      (0x1C8, 0x1C8, 1, 0x1C7), (0x1C9, 0x1C9, 1, 0x1C7), (0x1CB, 0x1CB, 1, 0x1CA),
      (0x1CC, 0x1CC, 1, 0x1CA), (0x1CE, 0x1DC, 2, 0x1CD), (0x1DD, 0x1DD, 1, 0x18E),
      (0x1DF, 0x1EF, 2, 0x1DE), (0x1F2, 0x1F2, 1, 0x1F1), (0x1F3, 0x1F3, 1, 0x1F1),
      (0x1F5, 0x1F5, 1, 0x1F4), (0x1F9, 0x21F, 2, 0x1F8), (0x223, 0x233, 2, 0x222),
      (0x23C, 0x23C, 1, 0x23B), (0x23F, 0x240, 1, 0x2C7E), (0x242, 0x242, 1, 0x241),
      (0x247, 0x24F, 2, 0x246), (0x250, 0x250, 1, 0x2C6F), (0x251, 0x251, 1, 0x2C6D),
      (0x252, 0x252, 1, 0x2C70), (0x253, 0x253, 1, 0x181), (0x254, 0x254, 1, 0x186),
      (0x256, 0x257, 1, 0x189), (0x259, 0x259, 1, 0x18F), (0x25B, 0x25B, 1, 0x190),
      (0x25C, 0x25C, 1, 0xA7AB), (0x260, 0x260, 1, 0x193), (0x261, 0x261, 1, 0xA7AC),
      (0x263, 0x263, 1, 0x194), (0x265, 0x265, 1, 0xA78D), (0x266, 0x266, 1, 0xA7AA),
      (0x268, 0x268, 1, 0x197), (0x269, 0x269, 1, 0x196), (0x26A, 0x26A, 1, 0xA7AE),
      (0x26B, 0x26B, 1, 0x2C62), (0x26C, 0x26C, 1, 0xA7AD), (0x26F, 0x26F, 1, 0x19C),
      (0x271, 0x271, 1, 0x2C6E), (0x272, 0x272, 1, 0x19D), (0x275, 0x275, 1, 0x19F),
      (0x27D, 0x27D, 1, 0x2C64), (0x280, 0x280, 1, 0x1A6), (0x282, 0x282, 1, 0xA7C5),
      (0x283, 0x283, 1, 0x1A9), (0x287, 0x287, 1, 0xA7B1), (0x288, 0x288, 1, 0x1AE),
      (0x289, 0x289, 1, 0x244), (0x28A, 0x28B, 1, 0x1B1), (0x28C, 0x28C, 1, 0x245),
      (0x292, 0x292, 1, 0x1B7), (0x29D, 0x29D, 1, 0xA7B2), (0x29E, 0x29E, 1, 0xA7B0),
      (0x345, 0x345, 1, 0x399), (0x371, 0x373, 2, 0x370), (0x377, 0x377, 1, 0x376),
      (0x37B, 0x37D, 1, 0x3FD), (0x3AC, 0x3AC, 1, 0x386), (0x3AD, 0x3AF, 1, 0x388),
      (0x3B1, 0x3C1, 1, 0x391), (0x3C2, 0x3C2, 1, 0x3A3), (0x3C3, 0x3CB, 1, 0x3A3),
      (0x3CC, 0x3CC, 1, 0x38C), (0x3CD, 0x3CE, 1, 0x38E), (0x3D0, 0x3D0, 1, 0x392),
      (0x3D1, 0x3D1, 1, 0x398), (0x3D5, 0x3D5, 1, 0x3A6), (0x3D6, 0x3D6, 1, 0x3A0),
      (0x3D7, 0x3D7, 1, 0x3CF), (0x3D9, 0x3EF, 2, 0x3D8), (0x3F0, 0x3F0, 1, 0x39A),
      (0x3F1, 0x3F1, 1, 0x3A1), (0x3F2, 0x3F2, 1, 0x3F9), (0x3F3, 0x3F3, 1, 0x37F),
      (0x3F5, 0x3F5, 1, 0x395), (0x3F8, 0x3F8, 1, 0x3F7), (0x3FB, 0x3FB, 1, 0x3FA),
      (0x430, 0x44F, 1, 0x410), (0x450, 0x45F, 1, 0x400), (0x461, 0x481, 2, 0x460),
      (0x48B, 0x4BF, 2, 0x48A), (0x4C2, 0x4CE, 2, 0x4C1), (0x4CF, 0x4CF, 1, 0x4C0),
      (0x4D1, 0x52F, 2, 0x4D0), (0x561, 0x586, 1, 0x531), (0x10D0, 0x10FA, 1, 0x1C90),
      (0x10FD, 0x10FF, 1, 0x1CBD), (0x13F8, 0x13FD, 1, 0x13F0), (0x1C80, 0x1C80, 1, 0x412),
      (0x1C81, 0x1C81, 1, 0x414), (0x1C82, 0x1C82, 1, 0x41E), (0x1C83, 0x1C84, 1, 0x421),
      (0x1C85, 0x1C85, 1, 0x422), (0x1C86, 0x1C86, 1, 0x42A), (0x1C87, 0x1C87, 1, 0x462),
      (0x1C88, 0x1C88, 1, 0xA64A), (0x1D79, 0x1D79, 1, 0xA77D), (0x1D7D, 0x1D7D, 1, 0x2C63),
      (0x1D8E, 0x1D8E, 1, 0xA7C6), (0x1E01, 0x1E95, 2, 0x1E00), (0x1E9B, 0x1E9B, 1, 0x1E60),
      (0x1EA1, 0x1EFF, 2, 0x1EA0), (0x1F00, 0x1F07, 1, 0x1F08), (0x1F10, 0x1F15, 1, 0x1F18),
      (0x1F20, 0x1F27, 1, 0x1F28), (0x1F30, 0x1F37, 1, 0x1F38), (0x1F40, 0x1F45, 1, 0x1F48),
      (0x1F51, 0x1F57, 2, 0x1F59), (0x1F60, 0x1F67, 1, 0x1F68), (0x1F70, 0x1F71, 1, 0x1FBA),
      (0x1F72, 0x1F75, 1, 0x1FC8), (0x1F76, 0x1F77, 1, 0x1FDA), (0x1F78, 0x1F79, 1, 0x1FF8),
      (0x1F7A, 0x1F7B, 1, 0x1FEA), (0x1F7C, 0x1F7D, 1, 0x1FFA), (0x1FB0, 0x1FB1, 1, 0x1FB8),
      (0x1FBE, 0x1FBE, 1, 0x399), (0x1FD0, 0x1FD1, 1, 0x1FD8), (0x1FE0, 0x1FE1, 1, 0x1FE8),
      (0x1FE5, 0x1FE5, 1, 0x1FEC), (0x214E, 0x214E, 1, 0x2132), (0x2170, 0x217F, 1, 0x2160),
      (0x2184, 0x2184, 1, 0x2183), (0x24D0, 0x24E9, 1, 0x24B6), (0x2C30, 0x2C5F, 1, 0x2C00),
      (0x2C61, 0x2C61, 1, 0x2C60), (0x2C65, 0x2C65, 1, 0x23A), (0x2C66, 0x2C66, 1, 0x23E),
      (0x2C68, 0x2C6C, 2, 0x2C67), (0x2C73, 0x2C73, 1, 0x2C72), (0x2C76, 0x2C76, 1, 0x2C75),
      (0x2C81, 0x2CE3, 2, 0x2C80), (0x2CEC, 0x2CEE, 2, 0x2CEB), (0x2CF3, 0x2CF3, 1, 0x2CF2),
      (0x2D00, 0x2D25, 1, 0x10A0), (0x2D27, 0x2D27, 1, 0x10C7), (0x2D2D, 0x2D2D, 1, 0x10CD),
      (0xA641, 0xA66D, 2, 0xA640), (0xA681, 0xA69B, 2, 0xA680), (0xA723, 0xA72F, 2, 0xA722),
      (0xA733, 0xA76F, 2, 0xA732), (0xA77A, 0xA77C, 2, 0xA779), (0xA77F, 0xA787, 2, 0xA77E),
      (0xA78C, 0xA78C, 1, 0xA78B), (0xA791, 0xA793, 2, 0xA790), (0xA794, 0xA794, 1, 0xA7C4),
      (0xA797, 0xA7A9, 2, 0xA796), (0xA7B5, 0xA7C3, 2, 0xA7B4), (0xA7C8, 0xA7CA, 2, 0xA7C7),
      (0xA7D1, 0xA7D1, 1, 0xA7D0), (0xA7D7, 0xA7D9, 2, 0xA7D6), (0xA7F6, 0xA7F6, 1, 0xA7F5),
      (0xAB53, 0xAB53, 1, 0xA7B3), (0xAB70, 0xABBF, 1, 0x13A0), (0xFF41, 0xFF5A, 1, 0xFF21),
      (0x10428, 0x1044F, 1, 0x10400), (0x104D8, 0x104FB, 1, 0x104B0), (0x10597, 0x105BB, 2, 0x10570),
      (0x10598, 0x105A0, 2, 0x10571), (0x105A4, 0x105B0, 2, 0x1057D), (0x105B4, 0x105B8, 2, 0x1058D),
      (0x105BC, 0x105BC, 1, 0x10595), (0x10CC0, 0x10CF2, 1, 0x10C80), (0x118C0, 0x118DF, 1, 0x118A0),
      (0x16E60, 0x16E7F, 1, 0x16E40), (0x1E922, 0x1E943, 1, 0x1E900)]"

definition lower_special :: "(nat \<times> nat list) list" where
  "lower_special =
     [(0x130, [0x69, 0x307])]"

definition lower_runs :: "(nat \<times> nat \<times> nat \<times> nat) list" where
  "lower_runs =
     [(0xC0, 0xD6, 1, 0xE0), (0xD8, 0xDE, 1, 0xF8), (0x100, 0x12E, 2, 0x101),
      (0x132, 0x136, 2, 0x133), (0x139, 0x147, 2, 0x13A), (0x14A, 0x176, 2, 0x14B),
      (0x178, 0x178, 1, 0xFF), (0x179, 0x17D, 2, 0x17A), (0x181, 0x181, 1, 0x253),
      (0x182, 0x184, 2, 0x183), (0x186, 0x186, 1, 0x254), (0x187, 0x187, 1, 0x188),
      (0x189, 0x18A, 1, 0x256), (0x18B, 0x18B, 1, 0x18C), (0x18E, 0x18E, 1, 0x1DD),
      (0x18F, 0x18F, 1, 0x259), (0x190, 0x190, 1, 0x25B), (0x191, 0x191, 1, 0x192),
      (0x193, 0x193, 1, 0x260), (0x194, 0x194, 1, 0x263), (0x196, 0x196, 1, 0x269),
      (0x197, 0x197, 1, 0x268), (0x198, 0x198, 1, 0x199), (0x19C, 0x19C, 1, 0x26F),
      (0x19D, 0x19D, 1, 0x272), (0x19F, 0x19F, 1, 0x275), (0x1A0, 0x1A4, 2, 0x1A1),
      (0x1A6, 0x1A6, 1, 0x280), (0x1A7, 0x1A7, 1, 0x1A8), (0x1A9, 0x1A9, 1, 0x283),
      (0x1AC, 0x1AC, 1, 0x1AD), (0x1AE, 0x1AE, 1, 0x288), (0x1AF, 0x1AF, 1, 0x1B0),
      (0x1B1, 0x1B2, 1, 0x28A), (0x1B3, 0x1B5, 2, 0x1B4), (0x1B7, 0x1B7, 1, 0x292),
      (0x1B8, 0x1B8, 1, 0x1B9), (0x1BC, 0x1BC, 1, 0x1BD), (0x1C4, 0x1C4, 1, 0x1C6),
      (0x1C5, 0x1C5, 1, 0x1C6), (0x1C7, 0x1C7, 1, 0x1C9), (0x1C8, 0x1C8, 1, 0x1C9),
      (0x1CA, 0x1CA, 1, 0x1CC), (0x1CB, 0x1DB, 2, 0x1CC), (0x1DE, 0x1EE, 2, 0x1DF),
      (0x1F1, 0x1F1, 1, 0x1F3), (0x1F2, 0x1F4, 2, 0x1F3), (0x1F6, 0x1F6, 1, 0x195),
      (0x1F7, 0x1F7, 1, 0x1BF), (0x1F8, 0x21E, 2, 0x1F9), (0x220, 0x220, 1, 0x19E),
      (0x222, 0x232, 2, 0x223), (0x23A, 0x23A, 1, 0x2C65), (0x23B, 0x23B, 1, 0x23C),
      (0x23D, 0x23D, 1, 0x19A), (0x23E, 0x23E, 1, 0x2C66), (0x241, 0x241, 1, 0x242),
      (0x243, 0x243, 1, 0x180), (0x244, 0x244, 1, 0x289), (0x245, 0x245, 1, 0x28C),
      (0x246, 0x24E, 2, 0x247), (0x370, 0x372, 2, 0x371), (0x376, 0x376, 1, 0x377),
      (0x37F, 0x37F, 1, 0x3F3), (0x386, 0x386, 1, 0x3AC), (0x388, 0x38A, 1, 0x3AD),
      (0x38C, 0x38C, 1, 0x3CC), (0x38E, 0x38F, 1, 0x3CD), (0x391, 0x3A1, 1, 0x3B1),
      (0x3A3, 0x3AB, 1, 0x3C3), (0x3CF, 0x3CF, 1, 0x3D7), (0x3D8, 0x3EE, 2, 0x3D9),
      (0x3F4, 0x3F4, 1, 0x3B8), (0x3F7, 0x3F7, 1, 0x3F8), (0x3F9, 0x3F9, 1, 0x3F2),
      (0x3FA, 0x3FA, 1, 0x3FB), (0x3FD, 0x3FF, 1, 0x37B), (0x400, 0x40F, 1, 0x450),
      (0x410, 0x42F, 1, 0x430), (0x460, 0x480, 2, 0x461), (0x48A, 0x4BE, 2, 0x48B),
      (0x4C0, 0x4C0, 1, 0x4CF), (0x4C1, 0x4CD, 2, 0x4C2), (0x4D0, 0x52E, 2, 0x4D1),
      (0x531, 0x556, 1, 0x561), (0x10A0, 0x10C5, 1, 0x2D00), (0x10C7, 0x10C7, 1, 0x2D27),
      (0x10CD, 0x10CD, 1, 0x2D2D), (0x13A0, 0x13EF, 1, 0xAB70), (0x13F0, 0x13F5, 1, 0x13F8),
      (0x1C90, 0x1CBA, 1, 0x10D0), (0x1CBD, 0x1CBF, 1, 0x10FD), (0x1E00, 0x1E94, 2, 0x1E01),
      (0x1E9E, 0x1E9E, 1, 0xDF), (0x1EA0, 0x1EFE, 2, 0x1EA1), (0x1F08, 0x1F0F, 1, 0x1F00),
      (0x1F18, 0x1F1D, 1, 0x1F10), (0x1F28, 0x1F2F, 1, 0x1F20), (0x1F38, 0x1F3F, 1, 0x1F30),
      (0x1F48, 0x1F4D, 1, 0x1F40), (0x1F59, 0x1F5F, 2, 0x1F51), (0x1F68, 0x1F6F, 1, 0x1F60),
      (0x1F88, 0x1F8F, 1, 0x1F80), (0x1F98, 0x1F9F, 1, 0x1F90), (0x1FA8, 0x1FAF, 1, 0x1FA0),
      (0x1FB8, 0x1FB9, 1, 0x1FB0), (0x1FBA, 0x1FBB, 1, 0x1F70), (0x1FBC, 0x1FBC, 1, 0x1FB3),
      (0x1FC8, 0x1FCB, 1, 0x1F72), (0x1FCC, 0x1FCC, 1, 0x1FC3), (0x1FD8, 0x1FD9, 1, 0x1FD0),
      (0x1FDA, 0x1FDB, 1, 0x1F76), (0x1FE8, 0x1FE9, 1, 0x1FE0), (0x1FEA, 0x1FEB, 1, 0x1F7A),
      (0x1FEC, 0x1FEC, 1, 0x1FE5), (0x1FF8, 0x1FF9, 1, 0x1F78), (0x1FFA, 0x1FFB, 1, 0x1F7C),
      (0x1FFC, 0x1FFC, 1, 0x1FF3), (0x2126, 0x2126, 1, 0x3C9), (0x212A, 0x212A, 1, 0x6B),
      (0x212B, 0x212B, 1, 0xE5), (0x2132, 0x2132, 1, 0x214E), (0x2160, 0x216F, 1, 0x2170),
      (0x2183, 0x2183, 1, 0x2184), (0x24B6, 0x24CF, 1, 0x24D0), (0x2C00, 0x2C2F, 1, 0x2C30),
      (0x2C60, 0x2C60, 1, 0x2C61), (0x2C62, 0x2C62, 1, 0x26B), (0x2C63, 0x2C63, 1, 0x1D7D),
      (0x2C64, 0x2C64, 1, 0x27D), (0x2C67, 0x2C6B, 2, 0x2C68), (0x2C6D, 0x2C6D, 1, 0x251),
      (0x2C6E, 0x2C6E, 1, 0x271), (0x2C6F, 0x2C6F, 1, 0x250), (0x2C70, 0x2C70, 1, 0x252),
      (0x2C72, 0x2C72, 1, 0x2C73), (0x2C75, 0x2C75, 1, 0x2C76), (0x2C7E, 0x2C7F, 1, 0x23F),
      (0x2C80, 0x2CE2, 2, 0x2C81), (0x2CEB, 0x2CED, 2, 0x2CEC), (0x2CF2, 0x2CF2, 1, 0x2CF3),
      (0xA640, 0xA66C, 2, 0xA641), (0xA680, 0xA69A, 2, 0xA681), (0xA722, 0xA72E, 2, 0xA723),
      (0xA732, 0xA76E, 2, 0xA733), (0xA779, 0xA77B, 2, 0xA77A), (0xA77D, 0xA77D, 1, 0x1D79),
      (0xA77E, 0xA786, 2, 0xA77F), (0xA78B, 0xA78B, 1, 0xA78C), (0xA78D, 0xA78D, 1, 0x265),
      (0xA790, 0xA792, 2, 0xA791), (0xA796, 0xA7A8, 2, 0xA797), (0xA7AA, 0xA7AA, 1, 0x266),
      (0xA7AB, 0xA7AB, 1, 0x25C), (0xA7AC, 0xA7AC, 1, 0x261), (0xA7AD, 0xA7AD, 1, 0x26C),
      (0xA7AE, 0xA7AE, 1, 0x26A), (0xA7B0, 0xA7B0, 1, 0x29E), (0xA7B1, 0xA7B1, 1, 0x287),
      (0xA7B2, 0xA7B2, 1, 0x29D), (0xA7B3, 0xA7B3, 1, 0xAB53), (0xA7B4, 0xA7C2, 2, 0xA7B5),
      (0xA7C4, 0xA7C4, 1, 0xA794), (0xA7C5, 0xA7C5, 1, 0x282), (0xA7C6, 0xA7C6, 1, 0x1D8E),
      (0xA7C7, 0xA7C9, 2, 0xA7C8), (0xA7D0, 0xA7D0, 1, 0xA7D1), (0xA7D6, 0xA7D8, 2, 0xA7D7),
      (0xA7F5, 0xA7F5, 1, 0xA7F6), (0xFF21, 0xFF3A, 1, 0xFF41), (0x10400, 0x10427, 1, 0x10428),
      (0x104B0, 0x104D3, 1, 0x104D8), (0x10570, 0x10594, 2, 0x10597), (0x10571, 0x10579, 2, 0x10598),
      (0x1057D, 0x10589, 2, 0x105A4), (0x1058D, 0x10591, 2, 0x105B4), (0x10595, 0x10595, 1, 0x105BC),
      (0x10C80, 0x10CB2, 1, 0x10CC0), (0x118A0, 0x118BF, 1, 0x118C0), (0x16E40, 0x16E5F, 1, 0x16E60),
      (0x1E900, 0x1E921, 1, 0x1E922)]"

fun lookup_run :: "(nat \<times> nat \<times> nat \<times> nat) list \<Rightarrow> nat \<Rightarrow> nat option" where
  "lookup_run [] c = None"
| "lookup_run ((a, b, d, t) # rs) c =
     (if a \<le> c \<and> c \<le> b \<and> (c - a) mod d = 0 then Some (t + (c - a))
      else lookup_run rs c)"

definition toUpperCase_cp :: "nat \<Rightarrow> jstring" where
  "toUpperCase_cp c =
     (if c < 128 then [ascii_upper c]
      else case map_of upper_special c of
             Some u \<Rightarrow> u
           | None \<Rightarrow> (case lookup_run upper_runs c of Some u \<Rightarrow> [u] | None \<Rightarrow> [c]))"

definition toLowerCase_cp :: "nat \<Rightarrow> jstring" where
  "toLowerCase_cp c =
     (if c < 128 then [ascii_lower c]
      else case map_of lower_special c of
             Some l \<Rightarrow> l
           | None \<Rightarrow> (case lookup_run lower_runs c of Some l \<Rightarrow> [l] | None \<Rightarrow> [c]))"

definition toUpperCase :: "jstring \<Rightarrow> jstring" where
  "toUpperCase s = concat (map toUpperCase_cp s)"

text \<open>
  The one mapping that depends on the context is that of the capital sigma, U+03A3,
  in \<^verbatim>\<open>toLowerCase\<close>: it becomes the final sigma U+03C2 when a cased letter stands
  before it and none behind it, where characters that are ignorable for case are
  skipped on both sides, and the small sigma U+03C3 otherwise. The two properties of
  code points are given by their ranges \<open>(first, last)\<close>.
\<close>

definition case_ignorable_ranges :: "(nat \<times> nat) list" where
  "case_ignorable_ranges =
     [(0x27, 0x27), (0x2E, 0x2E), (0x3A, 0x3A), (0x5E, 0x5E), (0x60, 0x60),
      (0xA8, 0xA8), (0xAD, 0xAD), (0xAF, 0xAF), (0xB4, 0xB4), (0xB7, 0xB8),
      (0x2B0, 0x36F), (0x374, 0x375), (0x37A, 0x37A), (0x384, 0x385), (0x387, 0x387),
      (0x483, 0x489), (0x559, 0x559), (0x55F, 0x55F), (0x591, 0x5BD), (0x5BF, 0x5BF),
      (0x5C1, 0x5C2), (0x5C4, 0x5C5), (0x5C7, 0x5C7), (0x5F4, 0x5F4), (0x600, 0x605),
      (0x610, 0x61A), (0x61C, 0x61C), (0x640, 0x640), (0x64B, 0x65F), (0x670, 0x670),
      (0x6D6, 0x6DD), (0x6DF, 0x6E8), (0x6EA, 0x6ED), (0x70F, 0x70F), (0x711, 0x711),
      (0x730, 0x74A), (0x7A6, 0x7B0), (0x7EB, 0x7F5), (0x7FA, 0x7FA), (0x7FD, 0x7FD),
      (0x816, 0x82D), (0x859, 0x85B), (0x888, 0x888), (0x890, 0x891), (0x898, 0x89F),
      (0x8C9, 0x902), (0x93A, 0x93A), (0x93C, 0x93C), (0x941, 0x948), (0x94D, 0x94D),
      (0x951, 0x957), (0x962, 0x963), (0x971, 0x971), (0x981, 0x981), (0x9BC, 0x9BC),
      (0x9C1, 0x9C4), (0x9CD, 0x9CD), (0x9E2, 0x9E3), (0x9FE, 0x9FE), (0xA01, 0xA02),
      (0xA3C, 0xA3C), (0xA41, 0xA42), (0xA47, 0xA48), (0xA4B, 0xA4D), (0xA51, 0xA51),
      (0xA70, 0xA71), (0xA75, 0xA75), (0xA81, 0xA82), (0xABC, 0xABC), (0xAC1, 0xAC5),
      (0xAC7, 0xAC8), (0xACD, 0xACD), (0xAE2, 0xAE3), (0xAFA, 0xAFF), (0xB01, 0xB01),
      (0xB3C, 0xB3C), (0xB3F, 0xB3F), (0xB41, 0xB44), (0xB4D, 0xB4D), (0xB55, 0xB56),
      (0xB62, 0xB63), (0xB82, 0xB82), (0xBC0, 0xBC0), (0xBCD, 0xBCD), (0xC00, 0xC00),
      (0xC04, 0xC04), (0xC3C, 0xC3C), (0xC3E, 0xC40), (0xC46, 0xC48), (0xC4A, 0xC4D),
      (0xC55, 0xC56), (0xC62, 0xC63), (0xC81, 0xC81), (0xCBC, 0xCBC), (0xCBF, 0xCBF),
      (0xCC6, 0xCC6), (0xCCC, 0xCCD), (0xCE2, 0xCE3), (0xD00, 0xD01), (0xD3B, 0xD3C),
      (0xD41, 0xD44), (0xD4D, 0xD4D), (0xD62, 0xD63), (0xD81, 0xD81), (0xDCA, 0xDCA),
      (0xDD2, 0xDD4), (0xDD6, 0xDD6), (0xE31, 0xE31), (0xE34, 0xE3A), (0xE46, 0xE4E),
      (0xEB1, 0xEB1), (0xEB4, 0xEBC), (0xEC6, 0xEC6), (0xEC8, 0xECD), (0xF18, 0xF19),
      (0xF35, 0xF35), (0xF37, 0xF37), (0xF39, 0xF39), (0xF71, 0xF7E), (0xF80, 0xF84),
      (0xF86, 0xF87), (0xF8D, 0xF97), (0xF99, 0xFBC), (0xFC6, 0xFC6), (0x102D, 0x1030),
      (0x1032, 0x1037), (0x1039, 0x103A), (0x103D, 0x103E), (0x1058, 0x1059), (0x105E, 0x1060),
      (0x1071, 0x1074), (0x1082, 0x1082), (0x1085, 0x1086), (0x108D, 0x108D), (0x109D, 0x109D),
      (0x10FC, 0x10FC), (0x135D, 0x135F), (0x1712, 0x1714), (0x1732, 0x1733), (0x1752, 0x1753),
      (0x1772, 0x1773), (0x17B4, 0x17B5), (0x17B7, 0x17BD), (0x17C6, 0x17C6), (0x17C9, 0x17D3),
      (0x17D7, 0x17D7), (0x17DD, 0x17DD), (0x180B, 0x180F), (0x1843, 0x1843), (0x1885, 0x1886),
      (0x18A9, 0x18A9), (0x1920, 0x1922), (0x1927, 0x1928), (0x1932, 0x1932), (0x1939, 0x193B),
      (0x1A17, 0x1A18), (0x1A1B, 0x1A1B), (0x1A56, 0x1A56), (0x1A58, 0x1A5E), (0x1A60, 0x1A60),
      (0x1A62, 0x1A62), (0x1A65, 0x1A6C), (0x1A73, 0x1A7C), (0x1A7F, 0x1A7F), (0x1AA7, 0x1AA7),
      (0x1AB0, 0x1ACE), (0x1B00, 0x1B03), (0x1B34, 0x1B34), (0x1B36, 0x1B3A), (0x1B3C, 0x1B3C),
      (0x1B42, 0x1B42), (0x1B6B, 0x1B73), (0x1B80, 0x1B81), (0x1BA2, 0x1BA5), (0x1BA8, 0x1BA9),
      (0x1BAB, 0x1BAD), (0x1BE6, 0x1BE6), (0x1BE8, 0x1BE9), (0x1BED, 0x1BED), (0x1BEF, 0x1BF1),
      (0x1C2C, 0x1C33), (0x1C36, 0x1C37), (0x1C78, 0x1C7D), (0x1CD0, 0x1CD2), (0x1CD4, 0x1CE0),
      (0x1CE2, 0x1CE8), (0x1CED, 0x1CED), (0x1CF4, 0x1CF4), (0x1CF8, 0x1CF9), (0x1D2C, 0x1D6A),
      (0x1D78, 0x1D78), (0x1D9B, 0x1DFF), (0x1FBD, 0x1FBD), (0x1FBF, 0x1FC1), (0x1FCD, 0x1FCF),
      (0x1FDD, 0x1FDF), (0x1FED, 0x1FEF), (0x1FFD, 0x1FFE), (0x200B, 0x200F), (0x2018, 0x2019),
      (0x2024, 0x2024), (0x2027, 0x2027), (0x202A, 0x202E), (0x2060, 0x2064), (0x2066, 0x206F),
      (0x2071, 0x2071), (0x207F, 0x207F), (0x2090, 0x209C), (0x20D0, 0x20F0), (0x2C7C, 0x2C7D),
      (0x2CEF, 0x2CF1), (0x2D6F, 0x2D6F), (0x2D7F, 0x2D7F), (0x2DE0, 0x2DFF), (0x2E2F, 0x2E2F),
      (0x3005, 0x3005), (0x302A, 0x302D), (0x3031, 0x3035), (0x303B, 0x303B), (0x3099, 0x309E),
      (0x30FC, 0x30FE), (0xA015, 0xA015), (0xA4F8, 0xA4FD), (0xA60C, 0xA60C), (0xA66F, 0xA672),
      (0xA674, 0xA67D), (0xA67F, 0xA67F), (0xA69C, 0xA69F), (0xA6F0, 0xA6F1), (0xA700, 0xA721),
      (0xA770, 0xA770), (0xA788, 0xA78A), (0xA7F2, 0xA7F4), (0xA7F8, 0xA7F9), (0xA802, 0xA802),
      (0xA806, 0xA806), (0xA80B, 0xA80B), (0xA825, 0xA826), (0xA82C, 0xA82C), (0xA8C4, 0xA8C5),
      (0xA8E0, 0xA8F1), (0xA8FF, 0xA8FF), (0xA926, 0xA92D), (0xA947, 0xA951), (0xA980, 0xA982),
      (0xA9B3, 0xA9B3), (0xA9B6, 0xA9B9), (0xA9BC, 0xA9BD), (0xA9CF, 0xA9CF), (0xA9E5, 0xA9E6),
      (0xAA29, 0xAA2E), (0xAA31, 0xAA32), (0xAA35, 0xAA36), (0xAA43, 0xAA43), (0xAA4C, 0xAA4C),
      (0xAA70, 0xAA70), (0xAA7C, 0xAA7C), (0xAAB0, 0xAAB0), (0xAAB2, 0xAAB4), (0xAAB7, 0xAAB8),
      (0xAABE, 0xAABF), (0xAAC1, 0xAAC1), (0xAADD, 0xAADD), (0xAAEC, 0xAAED), (0xAAF3, 0xAAF4),
      (0xAAF6, 0xAAF6), (0xAB5B, 0xAB5F), (0xAB69, 0xAB6B), (0xABE5, 0xABE5), (0xABE8, 0xABE8),
      (0xABED, 0xABED), (0xFB1E, 0xFB1E), (0xFBB2, 0xFBC2), (0xFE00, 0xFE0F), (0xFE13, 0xFE13),
      (0xFE20, 0xFE2F), (0xFE52, 0xFE52), (0xFE55, 0xFE55), (0xFEFF, 0xFEFF), (0xFF07, 0xFF07),
      (0xFF0E, 0xFF0E), (0xFF1A, 0xFF1A), (0xFF3E, 0xFF3E), (0xFF40, 0xFF40), (0xFF70, 0xFF70),
      (0xFF9E, 0xFF9F), (0xFFE3, 0xFFE3), (0xFFF9, 0xFFFB), (0x101FD, 0x101FD), (0x102E0, 0x102E0),
      (0x10376, 0x1037A), (0x10780, 0x10785), (0x10787, 0x107B0), (0x107B2, 0x107BA), (0x10A01, 0x10A03),
      (0x10A05, 0x10A06), (0x10A0C, 0x10A0F), (0x10A38, 0x10A3A), (0x10A3F, 0x10A3F), (0x10AE5, 0x10AE6),
      (0x10D24, 0x10D27), (0x10EAB, 0x10EAC), (0x10F46, 0x10F50), (0x10F82, 0x10F85), (0x11001, 0x11001),
      (0x11038, 0x11046), (0x11070, 0x11070), (0x11073, 0x11074), (0x1107F, 0x11081), (0x110B3, 0x110B6),
      (0x110B9, 0x110BA), (0x110BD, 0x110BD), (0x110C2, 0x110C2), (0x110CD, 0x110CD), (0x11100, 0x11102),
      (0x11127, 0x1112B), (0x1112D, 0x11134), (0x11173, 0x11173), (0x11180, 0x11181), (0x111B6, 0x111BE),
      (0x111C9, 0x111CC), (0x111CF, 0x111CF), (0x1122F, 0x11231), (0x11234, 0x11234), (0x11236, 0x11237),
      (0x1123E, 0x1123E), (0x112DF, 0x112DF), (0x112E3, 0x112EA), (0x11300, 0x11301), (0x1133B, 0x1133C),
      (0x11340, 0x11340), (0x11366, 0x1136C), (0x11370, 0x11374), (0x11438, 0x1143F), (0x11442, 0x11444),
      (0x11446, 0x11446), (0x1145E, 0x1145E), (0x114B3, 0x114B8), (0x114BA, 0x114BA), (0x114BF, 0x114C0),
      (0x114C2, 0x114C3), (0x115B2, 0x115B5), (0x115BC, 0x115BD), (0x115BF, 0x115C0), (0x115DC, 0x115DD),
      (0x11633, 0x1163A), (0x1163D, 0x1163D), (0x1163F, 0x11640), (0x116AB, 0x116AB), (0x116AD, 0x116AD),
      (0x116B0, 0x116B5), (0x116B7, 0x116B7), (0x1171D, 0x1171F), (0x11722, 0x11725), (0x11727, 0x1172B),
      (0x1182F, 0x11837), (0x11839, 0x1183A), (0x1193B, 0x1193C), (0x1193E, 0x1193E), (0x11943, 0x11943),
      (0x119D4, 0x119D7), (0x119DA, 0x119DB), (0x119E0, 0x119E0), (0x11A01, 0x11A0A), (0x11A33, 0x11A38),
      (0x11A3B, 0x11A3E), (0x11A47, 0x11A47), (0x11A51, 0x11A56), (0x11A59, 0x11A5B), (0x11A8A, 0x11A96),
      (0x11A98, 0x11A99), (0x11C30, 0x11C36), (0x11C38, 0x11C3D), (0x11C3F, 0x11C3F), (0x11C92, 0x11CA7),
      (0x11CAA, 0x11CB0), (0x11CB2, 0x11CB3), (0x11CB5, 0x11CB6), (0x11D31, 0x11D36), (0x11D3A, 0x11D3A),
      (0x11D3C, 0x11D3D), (0x11D3F, 0x11D45), (0x11D47, 0x11D47), (0x11D90, 0x11D91), (0x11D95, 0x11D95),
      (0x11D97, 0x11D97), (0x11EF3, 0x11EF4), (0x13430, 0x13438), (0x16AF0, 0x16AF4), (0x16B30, 0x16B36),
      (0x16B40, 0x16B43), (0x16F4F, 0x16F4F), (0x16F8F, 0x16F9F), (0x16FE0, 0x16FE1), (0x16FE3, 0x16FE4),
      (0x1AFF0, 0x1AFF3), (0x1AFF5, 0x1AFFB), (0x1AFFD, 0x1AFFE), (0x1BC9D, 0x1BC9E), (0x1BCA0, 0x1BCA3),
      (0x1CF00, 0x1CF2D), (0x1CF30, 0x1CF46), (0x1D167, 0x1D169), (0x1D173, 0x1D182), (0x1D185, 0x1D18B),
      (0x1D1AA, 0x1D1AD), (0x1D242, 0x1D244), (0x1DA00, 0x1DA36), (0x1DA3B, 0x1DA6C), (0x1DA75, 0x1DA75),
      (0x1DA84, 0x1DA84), (0x1DA9B, 0x1DA9F), (0x1DAA1, 0x1DAAF), (0x1E000, 0x1E006), (0x1E008, 0x1E018),
      (0x1E01B, 0x1E021), (0x1E023, 0x1E024), (0x1E026, 0x1E02A), (0x1E130, 0x1E13D), (0x1E2AE, 0x1E2AE),
      (0x1E2EC, 0x1E2EF), (0x1E8D0, 0x1E8D6), (0x1E944, 0x1E94B), (0x1F3FB, 0x1F3FF), (0xE0001, 0xE0001),
      (0xE0020, 0xE007F), (0xE0100, 0xE01EF)]"

definition cased_ranges :: "(nat \<times> nat) list" where
  "cased_ranges =
     [(0x41, 0x5A), (0x61, 0x7A), (0xAA, 0xAA), (0xB5, 0xB5), (0xBA, 0xBA),
      (0xC0, 0xD6), (0xD8, 0xF6), (0xF8, 0x1BA), (0x1BC, 0x1BF), (0x1C4, 0x293),
      (0x295, 0x2B8), (0x2C0, 0x2C1), (0x2E0, 0x2E4), (0x345, 0x345), (0x370, 0x373),
      (0x376, 0x377), (0x37A, 0x37D), (0x37F, 0x37F), (0x386, 0x386), (0x388, 0x38A),
      (0x38C, 0x38C), (0x38E, 0x3A1), (0x3A3, 0x3F5), (0x3F7, 0x481), (0x48A, 0x52F),
      (0x531, 0x556), (0x560, 0x588), (0x10A0, 0x10C5), (0x10C7, 0x10C7), (0x10CD, 0x10CD),
      (0x10D0, 0x10FA), (0x10FD, 0x10FF), (0x13A0, 0x13F5), (0x13F8, 0x13FD), (0x1C80, 0x1C88),
      (0x1C90, 0x1CBA), (0x1CBD, 0x1CBF), (0x1D00, 0x1DBF), (0x1E00, 0x1F15), (0x1F18, 0x1F1D),
      (0x1F20, 0x1F45), (0x1F48, 0x1F4D), (0x1F50, 0x1F57), (0x1F59, 0x1F59), (0x1F5B, 0x1F5B),
      (0x1F5D, 0x1F5D), (0x1F5F, 0x1F7D), (0x1F80, 0x1FB4), (0x1FB6, 0x1FBC), (0x1FBE, 0x1FBE),
      (0x1FC2, 0x1FC4), (0x1FC6, 0x1FCC), (0x1FD0, 0x1FD3), (0x1FD6, 0x1FDB), (0x1FE0, 0x1FEC),
      (0x1FF2, 0x1FF4), (0x1FF6, 0x1FFC), (0x2071, 0x2071), (0x207F, 0x207F), (0x2090, 0x209C),
      (0x2102, 0x2102), (0x2107, 0x2107), (0x210A, 0x2113), (0x2115, 0x2115), (0x2119, 0x211D),
      (0x2124, 0x2124), (0x2126, 0x2126), (0x2128, 0x2128), (0x212A, 0x212D), (0x212F, 0x2134),
      (0x2139, 0x2139), (0x213C, 0x213F), (0x2145, 0x2149), (0x214E, 0x214E), (0x2160, 0x217F),
      (0x2183, 0x2184), (0x24B6, 0x24E9), (0x2C00, 0x2CE4), (0x2CEB, 0x2CEE), (0x2CF2, 0x2CF3),
      (0x2D00, 0x2D25), (0x2D27, 0x2D27), (0x2D2D, 0x2D2D), (0xA640, 0xA66D), (0xA680, 0xA69D),
      (0xA722, 0xA787), (0xA78B, 0xA78E), (0xA790, 0xA7CA), (0xA7D0, 0xA7D1), (0xA7D3, 0xA7D3),
      (0xA7D5, 0xA7D9), (0xA7F5, 0xA7F6), (0xA7F8, 0xA7FA), (0xAB30, 0xAB5A), (0xAB5C, 0xAB68),
      (0xAB70, 0xABBF), (0xFB00, 0xFB06), (0xFB13, 0xFB17), (0xFF21, 0xFF3A), (0xFF41, 0xFF5A),
      (0x10400, 0x1044F), (0x104B0, 0x104D3), (0x104D8, 0x104FB), (0x10570, 0x1057A), (0x1057C, 0x1058A),
      (0x1058C, 0x10592), (0x10594, 0x10595), (0x10597, 0x105A1), (0x105A3, 0x105B1), (0x105B3, 0x105B9),
      (0x105BB, 0x105BC), (0x10780, 0x10780), (0x10783, 0x10785), (0x10787, 0x107B0), (0x107B2, 0x107BA),
      (0x10C80, 0x10CB2), (0x10CC0, 0x10CF2), (0x118A0, 0x118DF), (0x16E40, 0x16E7F), (0x1D400, 0x1D454),
      (0x1D456, 0x1D49C), (0x1D49E, 0x1D49F), (0x1D4A2, 0x1D4A2), (0x1D4A5, 0x1D4A6), (0x1D4A9, 0x1D4AC),
      (0x1D4AE, 0x1D4B9), (0x1D4BB, 0x1D4BB), (0x1D4BD, 0x1D4C3), (0x1D4C5, 0x1D505), (0x1D507, 0x1D50A),
      (0x1D50D, 0x1D514), (0x1D516, 0x1D51C), (0x1D51E, 0x1D539), (0x1D53B, 0x1D53E), (0x1D540, 0x1D544),
      (0x1D546, 0x1D546), (0x1D54A, 0x1D550), (0x1D552, 0x1D6A5), (0x1D6A8, 0x1D6C0), (0x1D6C2, 0x1D6DA),
      (0x1D6DC, 0x1D6FA), (0x1D6FC, 0x1D714), (0x1D716, 0x1D734), (0x1D736, 0x1D74E), (0x1D750, 0x1D76E),
      (0x1D770, 0x1D788), (0x1D78A, 0x1D7A8), (0x1D7AA, 0x1D7C2), (0x1D7C4, 0x1D7CB), (0x1DF00, 0x1DF09),
      (0x1DF0B, 0x1DF1E), (0x1E900, 0x1E943), (0x1F130, 0x1F149), (0x1F150, 0x1F169), (0x1F170, 0x1F189)]"

fun in_ranges :: "(nat \<times> nat) list \<Rightarrow> nat \<Rightarrow> bool" where
  "in_ranges [] c = False"
| "in_ranges ((a, b) # rs) c = (a \<le> c \<and> c \<le> b \<or> in_ranges rs c)"

definition case_ignorable :: "nat \<Rightarrow> bool" where
  "case_ignorable c = in_ranges case_ignorable_ranges c"

definition cased :: "nat \<Rightarrow> bool" where
  "cased c = in_ranges cased_ranges c"

text \<open>
  \<open>final_sigma pre post\<close> for a sigma with the text \<open>post\<close> behind it and the text
  \<open>pre\<close> before it, the nearest character first.
\<close>

definition final_sigma :: "jstring \<Rightarrow> jstring \<Rightarrow> bool" where
  "final_sigma pre post =
     ((case dropWhile case_ignorable pre of [] \<Rightarrow> False | c # _ \<Rightarrow> cased c) \<and>
      (case dropWhile case_ignorable post of [] \<Rightarrow> True | c # _ \<Rightarrow> \<not> cased c))"

fun lower_from :: "jstring \<Rightarrow> jstring \<Rightarrow> jstring" where
  "lower_from pre [] = []"
| "lower_from pre (c # cs) =
     (if c = 0x3A3 then [if final_sigma pre cs then 0x3C2 else 0x3C3]
      else toLowerCase_cp c) @ lower_from (c # pre) cs"

definition toLowerCase :: "jstring \<Rightarrow> jstring" where
  "toLowerCase s = lower_from [] s"

subsection \<open>Character classes\<close>

text \<open>
  \<^verbatim>\<open>\s\<close>, and the characters \<^verbatim>\<open>trim\<close> removes: the white space and the line
  terminators of the language, that is tab, line feed, vertical tab, form feed,
  carriage return, space, the no-break space U+00A0, U+1680, U+2000 to U+200A, the
  line and paragraph separators U+2028 and U+2029, U+202F, U+205F, U+3000 and the
  byte order mark U+FEFF.
\<close>

definition is_space :: "nat \<Rightarrow> bool" where
  "is_space c =
     (c \<in> set [0x09, 0x0A, 0x0B, 0x0C, 0x0D, 0x20, 0xA0, 0x1680, 0x2028, 0x2029, 0x202F,
               0x205F, 0x3000, 0xFEFF] \<or>
      0x2000 \<le> c \<and> c \<le> 0x200A)"

text \<open>\<^verbatim>\<open>\w\<close>: an ASCII letter, a digit or the underscore.\<close>

definition is_word :: "nat \<Rightarrow> bool" where
  "is_word c =
     (0x61 \<le> c \<and> c \<le> 0x7A \<or> 0x41 \<le> c \<and> c \<le> 0x5A \<or> 0x30 \<le> c \<and> c \<le> 0x39 \<or>
      c = 0x5F)"

text \<open>The characters \<^verbatim>\<open>.\<close> does not match (no flag \<^verbatim>\<open>s\<close>): the line terminators.\<close>

definition is_line_terminator :: "nat \<Rightarrow> bool" where
  "is_line_terminator c = (c \<in> set [0x0A, 0x0D, 0x2028, 0x2029])"

definition trim :: "jstring \<Rightarrow> jstring" where
  "trim s = rev (dropWhile is_space (rev (dropWhile is_space s)))"

text \<open>\<^verbatim>\<open>s.includes(k)\<close>: \<open>k\<close> occurs in \<open>s\<close> as a contiguous substring.\<close>

fun str_includes :: "jstring \<Rightarrow> jstring \<Rightarrow> bool" where
  "str_includes [] k = (k = [])"
| "str_includes (c # cs) k = (prefix k (c # cs) \<or> str_includes cs k)"

subsection \<open>Regular expressions\<close>

text \<open>
  \<^verbatim>\<open>re.test(s)\<close> and the truth value of \<^verbatim>\<open>s.match(re)\<close> for a pattern without
  anchors: the pattern matches at the start of some suffix of \<open>s\<close>. The argument \<open>m\<close>
  is the pattern as a matcher anchored at the start of its input.
\<close>

fun search :: "(jstring \<Rightarrow> bool) \<Rightarrow> jstring \<Rightarrow> bool" where
  "search m [] = m []"
| "search m (c # cs) = (m (c # cs) \<or> search m cs)"

text \<open>
  The patterns of the source carry no flag \<^verbatim>\<open>u\<close>, and all their literal characters
  are ASCII. Under the flag \<^verbatim>\<open>i\<close> a character of the input matches a character of
  the pattern when their canonical forms are equal; the canonical form of a character is
  its upper-case form, unless that form is several characters, or is an ASCII character
  while the character itself is not, and then it is the character itself. So a
  character outside ASCII never matches an ASCII character of a pattern, and an ASCII
  character matches it exactly when the two are equal up to the case of an ASCII
  letter. \<open>match_ci k s\<close> is the ASCII literal \<open>k\<close> under the flag \<^verbatim>\<open>i\<close>, anchored
  at the start of \<open>s\<close>.
\<close>

fun match_ci :: "jstring \<Rightarrow> jstring \<Rightarrow> bool" where
  "match_ci [] s = True"
| "match_ci (k # ks) [] = False"
| "match_ci (k # ks) (c # cs) = (ascii_upper c = ascii_upper k \<and> match_ci ks cs)"

text \<open>\<^verbatim>\<open>.*\<close> followed by the pattern \<open>m\<close>, anchored.\<close>

fun dotstar_then :: "(jstring \<Rightarrow> bool) \<Rightarrow> jstring \<Rightarrow> bool" where
  "dotstar_then m [] = m []"
| "dotstar_then m (c # cs) = (m (c # cs) \<or> (\<not> is_line_terminator c \<and> dotstar_then m cs))"

text \<open>
  \<^verbatim>\<open>s.replace(/k/gi, r)\<close> for a literal \<open>k\<close> that is not empty: the matches are
  found from left to right, each search starting where the previous match ended.
\<close>

fun replace_ci :: "jstring \<Rightarrow> jstring \<Rightarrow> jstring \<Rightarrow> jstring" where
  "replace_ci k r [] = []"
| "replace_ci k r (c # cs) =
     (if k \<noteq> [] \<and> match_ci k (c # cs)
      then r @ replace_ci k r (drop (length k) (c # cs))
      else c # replace_ci k r cs)"

section \<open>The keyword formatter\<close>

text \<open>\<^verbatim>\<open>s.replace(/\s+/g, " ")\<close>: every maximal run of white space becomes one space.\<close>

function collapse_ws :: "jstring \<Rightarrow> jstring" where
  "collapse_ws [] = []"
| "collapse_ws (c # cs) =
     (if is_space c then 0x20 # collapse_ws (dropWhile is_space cs)
      else c # collapse_ws cs)"
  by pat_completeness auto
termination
  by (relation "measure length") (auto simp: length_dropWhile_le less_Suc_eq_le)

text \<open>
  \<^verbatim>\<open>\b\<close> between two neighbouring positions: exactly one of the two characters is a
  word character, where the position before the start and the one after the end count
  as no word character.
\<close>

definition is_word_opt :: "nat option \<Rightarrow> bool" where
  "is_word_opt c = (case c of None \<Rightarrow> False | Some x \<Rightarrow> is_word x)"

definition boundary :: "nat option \<Rightarrow> nat option \<Rightarrow> bool" where
  "boundary a b = (is_word_opt a \<noteq> is_word_opt b)"

definition char_at :: "jstring \<Rightarrow> nat \<Rightarrow> nat option" where
  "char_at s i = (if i < length s then Some (s ! i) else None)"

text \<open>
  The pattern \<^verbatim>\<open>\bk\b\<close> under the flag \<^verbatim>\<open>i\<close>, anchored at the start of \<open>s\<close>,
  where \<open>p\<close> is the character before \<open>s\<close> in the whole text.
\<close>

definition match_word :: "jstring \<Rightarrow> nat option \<Rightarrow> jstring \<Rightarrow> bool" where
  "match_word k p s =
     (boundary p (char_at s 0) \<and> match_ci k s \<and>
      boundary (char_at s (length k - 1)) (char_at s (length k)))"

text \<open>
  \<^verbatim>\<open>formatted.replace(new RegExp(`\\b${keyword}\\b`, "gi"), `\n${keyword.toUpperCase()}`)\<close>:
  \<open>replace_word k p s\<close> rewrites the rest \<open>s\<close> of the text, \<open>p\<close> being the character
  before it. After a match the search goes on behind the matched text.
\<close>

fun replace_word :: "jstring \<Rightarrow> nat option \<Rightarrow> jstring \<Rightarrow> jstring" where
  "replace_word k p [] = []"
| "replace_word k p (c # cs) =
     (if k \<noteq> [] \<and> match_word k p (c # cs)
      then 0x0A # toUpperCase k @
           replace_word k (char_at (c # cs) (length k - 1)) (drop (length k) (c # cs))
      else c # replace_word k (Some c) cs)"

text \<open>The list \<^verbatim>\<open>keywords\<close> of \<^verbatim>\<open>formatSQL\<close>, in its order.\<close>

definition formatKeywords :: "jstring list" where
  "formatKeywords =
     [asc ''SELECT'', asc ''FROM'', asc ''WHERE'', asc ''JOIN'', asc ''INNER JOIN'',
      asc ''LEFT JOIN'', asc ''RIGHT JOIN'', asc ''GROUP BY'', asc ''HAVING'', asc ''ORDER BY'',
      asc ''LIMIT'', asc ''OFFSET'', asc ''INSERT INTO'', asc ''VALUES'', asc ''UPDATE'',
      asc ''SET'', asc ''DELETE FROM'']"

text \<open>
  \<^verbatim>\<open>s.split("\n")\<close> and \<^verbatim>\<open>lines.join("\n")\<close>. The result of a split is never
  empty (the split of the empty string is one empty line), so the second case of
  \<open>split_nl\<close> always finds a first line to put the character on.
\<close>

fun split_nl :: "jstring \<Rightarrow> jstring list" where
  "split_nl [] = [[]]"
| "split_nl (c # cs) =
     (if c = 0x0A then [] # split_nl cs
      else (case split_nl cs of l # ls \<Rightarrow> (c # l) # ls | [] \<Rightarrow> [[c]]))"

fun join_nl :: "jstring list \<Rightarrow> jstring" where
  "join_nl [] = []"
| "join_nl [l] = l"
| "join_nl (l # ls) = l @ 0x0A # join_nl ls"

definition formatSQL :: "jstring \<Rightarrow> jstring" where
  "formatSQL sql =
     (let formatted0 = trim (collapse_ws sql);
          formatted1 = foldl (\<lambda>formatted keyword. replace_word keyword None formatted)
                         formatted0 formatKeywords
      in join_nl (filter (\<lambda>line. length line > 0) (map trim (split_nl formatted1))))"

section \<open>The SQL validator\<close>

record validation_result =
  isValid :: bool
  formatted :: jstring
  warnings :: "jstring list"
  suggestions :: "jstring list"

definition sqlKeywords :: "jstring list" where
  "sqlKeywords =
     [asc ''SELECT'', asc ''INSERT'', asc ''UPDATE'', asc ''DELETE'', asc ''CREATE'',
      asc ''DROP'', asc ''ALTER'', asc ''FROM'', asc ''WHERE'', asc ''JOIN'']"

text \<open>
  \<^verbatim>\<open>/INNER|LEFT|RIGHT|FULL|CROSS\s+JOIN/\<close>, applied by the source to the upper-cased
  text. The alternation binds weaker than the sequence: the alternatives are
  \<^verbatim>\<open>INNER\<close>, \<^verbatim>\<open>LEFT\<close>, \<^verbatim>\<open>RIGHT\<close>, \<^verbatim>\<open>FULL\<close> and \<^verbatim>\<open>CROSS\s+JOIN\<close>.
\<close>

definition re_join_type :: "jstring \<Rightarrow> bool" where
  "re_join_type s =
     search (\<lambda>t. prefix (asc ''INNER'') t \<or> prefix (asc ''LEFT'') t \<or>
                 prefix (asc ''RIGHT'') t \<or> prefix (asc ''FULL'') t \<or>
                 (prefix (asc ''CROSS'') t \<and>
                  (let a = drop 5 t; b = dropWhile is_space a
                   in a \<noteq> b \<and> prefix (asc ''JOIN'') b))) s"

definition no_keywords_warning :: jstring where
  "no_keywords_warning = asc ''Query does not contain standard SQL keywords''"

definition join_type_suggestion :: jstring where
  "join_type_suggestion =
     asc ''Consider using explicit JOIN type (INNER, LEFT, RIGHT, etc.) for clarity''"

definition validateSQL :: "jstring \<Rightarrow> jstring \<Rightarrow> validation_result" where
  "validateSQL sql dialect =
     (let trimmedSQL = trim sql;
          hasKeyword = list_ex (\<lambda>keyword. str_includes (toUpperCase trimmedSQL) keyword)
                         sqlKeywords;
          isValid0 = (if \<not> hasKeyword then False else True);
          warnings1 = (if \<not> hasKeyword then [no_keywords_warning] else []);
          warnings2 =
            (if str_includes (toUpperCase trimmedSQL) (asc ''SELECT *'')
             then warnings1 @
               [asc ''Using SELECT * can impact performance. Consider specifying columns explicitly.'']
             else warnings1);
          warnings3 =
            (if (str_includes (toUpperCase trimmedSQL) (asc ''UPDATE'') \<or>
                 str_includes (toUpperCase trimmedSQL) (asc ''DELETE'')) \<and>
                \<not> str_includes (toUpperCase trimmedSQL) (asc ''WHERE'')
             then warnings2 @
               [asc ''UPDATE/DELETE without WHERE clause will affect all rows. Be cautious!'']
             else warnings2);
          suggestions1 =
            (if str_includes (toUpperCase trimmedSQL) (asc ''JOIN'') \<and>
                \<not> re_join_type (toUpperCase trimmedSQL)
             then [join_type_suggestion]
             else []);
          formatted0 = formatSQL trimmedSQL;
          suggestions2 =
            (if dialect = asc ''postgresql''
             then suggestions1 @
               [asc ''PostgreSQL supports RETURNING clause for INSERT/UPDATE/DELETE operations'']
             else if dialect = asc ''mysql''
             then suggestions1 @ [asc ''MySQL supports LIMIT clause for result pagination'']
             else suggestions1)
      in \<lparr> isValid = isValid0, formatted = formatted0, warnings = warnings3,
           suggestions = suggestions2 \<rparr>)"

section \<open>The SQL explainer\<close>

record component =
  part :: jstring
  description :: jstring

record explanation_result =
  explanation :: jstring
  components :: "component list"

text \<open>\<^verbatim>\<open>/SELECT\s+\*/i\<close>\<close>

definition re_select_star :: "jstring \<Rightarrow> bool" where
  "re_select_star s =
     search (\<lambda>t. match_ci (asc ''SELECT'') t \<and>
        (let a = drop 6 t; b = dropWhile is_space a
         in a \<noteq> b \<and> prefix (asc ''*'') b)) s"

text \<open>
  \<^verbatim>\<open>sql.match(/FROM\s+(\w+)/i)\<close>: the first capture group of the leftmost match,
  \<open>None\<close> when the pattern does not match.
\<close>

fun fromMatch :: "jstring \<Rightarrow> jstring option" where
  "fromMatch [] = None"
| "fromMatch (c # cs) =
     (let a = drop 4 (c # cs); b = dropWhile is_space a
      in if match_ci (asc ''FROM'') (c # cs) \<and> a \<noteq> b \<and> takeWhile is_word b \<noteq> []
         then Some (takeWhile is_word b)
         else fromMatch cs)"

text \<open>
  \<^verbatim>\<open>explainSQL\<close> appends to \<^verbatim>\<open>explanation\<close> and pushes onto \<^verbatim>\<open>components\<close>
  in a sequence of blocks. Each block of the source is a function on the pair of the
  two accumulators, held in an \<open>explanation_result\<close>; \<open>explainSQL\<close> runs the blocks
  in the order of the source.
\<close>

definition push_part :: "jstring \<Rightarrow> component \<Rightarrow> explanation_result \<Rightarrow> explanation_result" where
  "push_part fragment entry st =
     \<lparr> explanation = explanation st @ fragment, components = components st @ [entry] \<rparr>"

text \<open>The chain \<^verbatim>\<open>if (SELECT) ... else if (INSERT) ... else if (UPDATE) ... else if (DELETE)\<close>.\<close>

definition explain_statement ::
  "jstring \<Rightarrow> jstring \<Rightarrow> explanation_result \<Rightarrow> explanation_result" where
  "explain_statement sql upperSQL st =
     (if str_includes upperSQL (asc ''SELECT'')
      then (let st1 = push_part (asc ''retrieves data '')
                        \<lparr> part = asc ''SELECT'',
                          description = asc ''Specifies which columns to retrieve'' \<rparr> st
            in if re_select_star sql
               then push_part [] \<lparr> part = asc ''SELECT *'',
                             description = asc ''Selects all columns from the table'' \<rparr> st1
               else st1)
      else if str_includes upperSQL (asc ''INSERT'')
      then push_part (asc ''inserts new data '')
             \<lparr> part = asc ''INSERT'', description = asc ''Adds new rows to a table'' \<rparr> st
      else if str_includes upperSQL (asc ''UPDATE'')
      then push_part (asc ''modifies existing data '')
             \<lparr> part = asc ''UPDATE'', description = asc ''Changes existing rows in a table'' \<rparr> st
      else if str_includes upperSQL (asc ''DELETE'')
      then push_part (asc ''removes data '')
             \<lparr> part = asc ''DELETE'', description = asc ''Removes rows from a table'' \<rparr> st
      else st)"

definition explain_from :: "jstring \<Rightarrow> explanation_result \<Rightarrow> explanation_result" where
  "explain_from sql st =
     (case fromMatch sql of
        Some table \<Rightarrow>
          push_part (asc ''from the '' @ [0x22] @ table @ [0x22] @ asc '' table '')
            \<lparr> part = asc ''FROM'', description = asc ''Specifies the source table: '' @ table \<rparr> st
      | None \<Rightarrow> st)"

definition explain_where :: "jstring \<Rightarrow> explanation_result \<Rightarrow> explanation_result" where
  "explain_where upperSQL st =
     (if str_includes upperSQL (asc ''WHERE'')
      then push_part (asc ''with specific conditions '')
             \<lparr> part = asc ''WHERE'',
               description = asc ''Filters rows based on specified conditions'' \<rparr> st
      else st)"

definition explain_join :: "jstring \<Rightarrow> explanation_result \<Rightarrow> explanation_result" where
  "explain_join upperSQL st =
     (if str_includes upperSQL (asc ''JOIN'')
      then push_part (asc ''by combining data from multiple tables '')
             \<lparr> part = asc ''JOIN'',
               description =
                 asc ''Combines rows from two or more tables based on related columns'' \<rparr> st
      else st)"

definition explain_group_by :: "jstring \<Rightarrow> explanation_result \<Rightarrow> explanation_result" where
  "explain_group_by upperSQL st =
     (if str_includes upperSQL (asc ''GROUP BY'')
      then push_part (asc ''and groups results by specific columns '')
             \<lparr> part = asc ''GROUP BY'',
               description =
                 asc ''Groups rows that have the same values in specified columns'' \<rparr> st
      else st)"

definition explain_order_by :: "jstring \<Rightarrow> explanation_result \<Rightarrow> explanation_result" where
  "explain_order_by upperSQL st =
     (if str_includes upperSQL (asc ''ORDER BY'')
      then push_part (asc ''and sorts the results '')
             \<lparr> part = asc ''ORDER BY'',
               description = asc ''Sorts the result set by specified columns'' \<rparr> st
      else st)"

definition explain_limit :: "jstring \<Rightarrow> explanation_result \<Rightarrow> explanation_result" where
  "explain_limit upperSQL st =
     (if str_includes upperSQL (asc ''LIMIT'')
      then push_part (asc ''and limits the number of results returned'')
             \<lparr> part = asc ''LIMIT'', description = asc ''Restricts the number of rows returned'' \<rparr> st
      else st)"

definition explainSQL :: "jstring \<Rightarrow> explanation_result" where
  "explainSQL sql =
     (let upperSQL = toUpperCase sql;
          st0 = \<lparr> explanation = asc ''This SQL query '', components = [] \<rparr>;
          st1 = explain_statement sql upperSQL st0;
          st2 = explain_from sql st1;
          st3 = explain_where upperSQL st2;
          st4 = explain_join upperSQL st3;
          st5 = explain_group_by upperSQL st4;
          st6 = explain_order_by upperSQL st5;
          st7 = explain_limit upperSQL st6
      in st7)"

section \<open>The schema lookup\<close>

record schema_info =
  commonColumns :: "jstring list"
  relationships :: "jstring list"
  examples :: "jstring list"

text \<open>
  \<^verbatim>\<open>schemas\<close> is an object literal, and \<^verbatim>\<open>schemas[key]\<close> reads a property of it:
  one of its own three, or else one it inherits from \<^verbatim>\<open>Object.prototype\<close> (a
  function, or for \<^verbatim>\<open>__proto__\<close> the prototype object itself), or else
  \<^verbatim>\<open>undefined\<close>. A value read this way is therefore one of three kinds.
\<close>

datatype js_value =
  Schema schema_info
| ObjectPrototypeMember jstring
| Undefined

definition schemas :: "(jstring \<times> schema_info) list" where
  "schemas =
     [(asc ''users'',
       \<lparr> commonColumns =
           [asc ''id'', asc ''username'', asc ''email'', asc ''password_hash'', asc ''created_at'',
            asc ''updated_at'', asc ''first_name'', asc ''last_name'', asc ''is_active''],
         relationships =
           [asc ''users have many orders'', asc ''users have many posts'',
            asc ''users belong to many roles''],
         examples =
           [asc ''SELECT * FROM users WHERE email = '' @ [0x27] @ asc ''user@example.com'' @ [0x27],
            asc ''SELECT id, username, email FROM users WHERE is_active = true ORDER BY created_at DESC'',
            asc ''SELECT COUNT(*) FROM users WHERE created_at > '' @ [0x27] @ asc ''2024-01-01'' @ [0x27]] \<rparr>),
      (asc ''products'',
       \<lparr> commonColumns =
           [asc ''id'', asc ''name'', asc ''description'', asc ''price'', asc ''stock_quantity'',
            asc ''category_id'', asc ''sku'', asc ''created_at'', asc ''updated_at''],
         relationships =
           [asc ''products belong to categories'', asc ''products have many order_items'',
            asc ''products have many reviews''],
         examples =
           [asc ''SELECT * FROM products WHERE price < 100 AND stock_quantity > 0'',
            asc ''SELECT name, price FROM products WHERE category_id = 5 ORDER BY price ASC'',
            asc ''SELECT AVG(price) as avg_price FROM products GROUP BY category_id''] \<rparr>),
      (asc ''orders'',
       \<lparr> commonColumns =
           [asc ''id'', asc ''user_id'', asc ''total_amount'', asc ''status'', asc ''order_date'',
            asc ''shipping_address'', asc ''payment_method'', asc ''created_at''],
         relationships =
           [asc ''orders belong to users'', asc ''orders have many order_items'',
            asc ''orders have one payment''],
         examples =
           [asc ''SELECT * FROM orders WHERE user_id = 123 ORDER BY order_date DESC'',
            asc ''SELECT COUNT(*) as order_count, SUM(total_amount) as total_revenue FROM orders WHERE status = '' @ [0x27] @ asc ''completed'' @ [0x27],
            asc ''SELECT o.id, u.username FROM orders o JOIN users u ON o.user_id = u.id''] \<rparr>)]"

text \<open>The property names every object inherits from \<^verbatim>\<open>Object.prototype\<close>.\<close>

definition object_prototype_keys :: "jstring list" where
  "object_prototype_keys =
     [asc ''constructor'', asc ''__proto__'', asc ''hasOwnProperty'', asc ''isPrototypeOf'',
      asc ''propertyIsEnumerable'', asc ''toLocaleString'', asc ''toString'', asc ''valueOf'',
      asc ''__defineGetter__'', asc ''__defineSetter__'', asc ''__lookupGetter__'',
      asc ''__lookupSetter__'']"

definition schemas_get :: "jstring \<Rightarrow> js_value" where
  "schemas_get key =
     (case map_of schemas key of
        Some s \<Rightarrow> Schema s
      | None \<Rightarrow> if key \<in> set object_prototype_keys then ObjectPrototypeMember key
                else Undefined)"

text \<open>Truthiness: objects and functions are truthy, \<^verbatim>\<open>undefined\<close> is not.\<close>

fun js_truthy :: "js_value \<Rightarrow> bool" where
  "js_truthy (Schema s) = True"
| "js_truthy (ObjectPrototypeMember k) = True"
| "js_truthy Undefined = False"

definition fallback_schema :: "jstring \<Rightarrow> schema_info" where
  "fallback_schema tableType =
     \<lparr> commonColumns = [asc ''id'', asc ''name'', asc ''created_at'', asc ''updated_at''],
       relationships = [asc ''Depends on your specific database schema''],
       examples = [asc ''SELECT * FROM '' @ tableType @ asc '' LIMIT 10''] \<rparr>"

definition getSchemaInfo :: "jstring \<Rightarrow> js_value" where
  "getSchemaInfo tableType =
     (let lowerTableType = toLowerCase tableType;
          v = schemas_get lowerTableType
      in if js_truthy v then v else Schema (fallback_schema tableType))"

section \<open>The SQL optimizer\<close>

record optimization_result =
  optimized :: jstring
  improvements :: "jstring list"
  performance :: jstring

text \<open>\<^verbatim>\<open>/%.*LIKE/i\<close>\<close>

definition re_percent_like :: "jstring \<Rightarrow> bool" where
  "re_percent_like s =
     search (\<lambda>t. case t of [] \<Rightarrow> False
                   | c # cs \<Rightarrow> c = 0x25 \<and> dotstar_then (match_ci (asc ''LIKE'')) cs) s"

text \<open>\<^verbatim>\<open>/WHERE.*OR/\<close>, applied by the source to the upper-cased text.\<close>

definition re_where_or :: "jstring \<Rightarrow> bool" where
  "re_where_or s =
     search (\<lambda>t. prefix (asc ''WHERE'') t \<and> dotstar_then (prefix (asc ''OR'')) (drop 5 t)) s"

text \<open>
  \<^verbatim>\<open>/FROM\s+\w+\s*,\s*\w+/i\<close>. The classes \<^verbatim>\<open>\s\<close>, \<^verbatim>\<open>\w\<close> and the comma are
  disjoint, so each repetition takes its whole run.
\<close>

definition re_from_comma :: "jstring \<Rightarrow> bool" where
  "re_from_comma s =
     search (\<lambda>t. match_ci (asc ''FROM'') t \<and>
        (let a = drop 4 t; b = dropWhile is_space a;
             c = dropWhile is_word b; d = dropWhile is_space c
         in a \<noteq> b \<and> b \<noteq> c \<and>
            (case d of [] \<Rightarrow> False
             | x # e \<Rightarrow> x = 0x2C \<and>
                 (case dropWhile is_space e of [] \<Rightarrow> False | y # _ \<Rightarrow> is_word y)))) s"

definition optimizeSQL :: "jstring \<Rightarrow> optimization_result" where
  "optimizeSQL sql =
     (let improvements0 = [];
          optimized0 = sql;
          improvements1 =
            (if str_includes (toUpperCase sql) (asc ''SELECT *'')
             then improvements0 @
               [asc ''Replace SELECT * with specific column names to reduce data transfer'']
             else improvements0);
          improvements2 =
            (if str_includes (toUpperCase sql) (asc ''WHERE'')
             then improvements1 @ [asc ''Ensure columns used in WHERE clause are indexed'']
             else improvements1);
          improvements3 =
            (if re_percent_like sql
             then improvements2 @
               [asc ''LIKE patterns starting with % cannot use indexes efficiently'']
             else improvements2);
          optimized1 =
            (if str_includes (toUpperCase sql) (asc ''NOT IN'')
             then replace_ci (asc ''NOT IN'') (asc ''NOT EXISTS'') sql
             else optimized0);
          improvements4 =
            (if str_includes (toUpperCase sql) (asc ''NOT IN'')
             then improvements3 @
               [asc ''Replaced NOT IN with NOT EXISTS for better performance'']
             else improvements3);
          improvements5 =
            (if re_where_or (toUpperCase sql)
             then improvements4 @
               [asc ''Consider breaking OR conditions into UNION queries for better index usage'']
             else improvements4);
          improvements6 =
            (if re_from_comma sql
             then improvements5 @
               [asc ''Use explicit JOIN syntax instead of comma-separated tables for clarity'']
             else improvements5);
          improvements7 = improvements6 @
            [asc ''Use EXPLAIN or EXPLAIN ANALYZE to understand query execution plan''];
          performance0 =
            (if length improvements7 > 2
             then asc ''This query has multiple optimization opportunities''
             else asc ''This query looks relatively optimized'')
      in \<lparr> optimized = optimized1, improvements = improvements7,
           performance = performance0 \<rparr>)"

section \<open>The scorers\<close>

text \<open>
  A number of the source is a double: a finite number, one of the two infinities, or
  \<^verbatim>\<open>NaN\<close>. A finite number is modelled as a real; the rounding of the arithmetic is
  not part of the model, and neither is the sign of zero.
\<close>

datatype number = Finite real | PosInfinity | NegInfinity | NaN

text \<open>
  \<^verbatim>\<open>x * y\<close> for a finite \<open>x\<close>, the comparison of two numbers that are not
  \<^verbatim>\<open>NaN\<close>, and \<^verbatim>\<open>Math.min\<close> and \<^verbatim>\<open>Math.max\<close> of two numbers, which are
  \<^verbatim>\<open>NaN\<close> as soon as one argument is.
\<close>

fun js_times :: "real \<Rightarrow> number \<Rightarrow> number" where
  "js_times x (Finite y) = Finite (x * y)"
| "js_times x PosInfinity = (if x = 0 then NaN else if 0 < x then PosInfinity else NegInfinity)"
| "js_times x NegInfinity = (if x = 0 then NaN else if 0 < x then NegInfinity else PosInfinity)"
| "js_times x NaN = NaN"

fun number_le :: "number \<Rightarrow> number \<Rightarrow> bool" where
  "number_le (Finite x) (Finite y) = (x \<le> y)"
| "number_le NegInfinity y = True"
| "number_le x PosInfinity = True"
| "number_le x y = False"

definition math_min :: "number \<Rightarrow> number \<Rightarrow> number" where
  "math_min x y = (if x = NaN \<or> y = NaN then NaN else if number_le x y then x else y)"

definition math_max :: "number \<Rightarrow> number \<Rightarrow> number" where
  "math_max x y = (if x = NaN \<or> y = NaN then NaN else if number_le x y then y else x)"

text \<open>
  A judge verdict is the JSON object of the scorer's output schema, any field of which
  may be missing; a field that is missing (\<^verbatim>\<open>undefined\<close>) or \<^verbatim>\<open>null\<close> is
  \<open>None\<close>. A field that is present holds a value of the type the schema declares for
  it: a boolean, a list of strings, a string, or a number, which may be any number,
  also one outside the bounds the schema sets for the confidence. The argument of
  \<^verbatim>\<open>generateScore\<close> is \<^verbatim>\<open>results?.analyzeStepResult\<close>, itself \<open>None\<close> when
  \<^verbatim>\<open>results\<close> or the step result is missing.

  The source reads the step result as \<^verbatim>\<open>any\<close>. The correctness score reads
  \<^verbatim>\<open>isSyntacticallyCorrect\<close> and \<^verbatim>\<open>hasBestPractices\<close> for their truthiness only,
  \<^verbatim>\<open>securityIssues\<close> for its truthiness and for whether its length is greater than
  0, and \<^verbatim>\<open>confidence\<close> for whether it is missing and, in the product, for its
  numerical value. A field that holds a value of another type than the schema declares
  enters the score by these readings alone; so a confidence that is no number enters it
  as the number the product converts it to, which for a text such as \<^verbatim>\<open>high\<close> is
  \<^verbatim>\<open>NaN\<close>.
\<close>

record correctness_verdict =
  isSyntacticallyCorrect :: "bool option"
  hasBestPractices :: "bool option"
  securityIssues :: "jstring list option"
  confidence :: "number option"
  feedback :: "jstring option"

text \<open>The verdict of the intent scorer; its \<^verbatim>\<open>confidence\<close> is \<open>intentConfidence\<close>.\<close>

record intent_verdict =
  matchesIntent :: "bool option"
  intentConfidence :: "number option"
  reasoning :: "jstring option"

text \<open>\<^verbatim>\<open>{}\<close>, the value of \<^verbatim>\<open>r\<close> when the step result is missing.\<close>

definition empty_correctness_verdict :: correctness_verdict where
  "empty_correctness_verdict =
     \<lparr> isSyntacticallyCorrect = None, hasBestPractices = None, securityIssues = None,
       confidence = None, feedback = None \<rparr>"

definition empty_intent_verdict :: intent_verdict where
  "empty_intent_verdict =
     \<lparr> matchesIntent = None, intentConfidence = None, reasoning = None \<rparr>"

text \<open>Truthiness of a field holding a boolean, and \<^verbatim>\<open>x ?? d\<close>.\<close>

definition truthy :: "bool option \<Rightarrow> bool" where
  "truthy b = (case b of None \<Rightarrow> False | Some v \<Rightarrow> v)"

definition nullish_or :: "'a option \<Rightarrow> 'a \<Rightarrow> 'a" where
  "nullish_or x d = (case x of None \<Rightarrow> d | Some v \<Rightarrow> v)"

text \<open>
  The variable \<^verbatim>\<open>score\<close> of the source only ever holds 1 less some of the three
  deductions, a finite number; the confidence enters in the product alone.
\<close>

definition sqlCorrectness_generateScore :: "correctness_verdict option \<Rightarrow> number" where
  "sqlCorrectness_generateScore analyzeStepResult =
     (let r = (case analyzeStepResult of None \<Rightarrow> empty_correctness_verdict | Some v \<Rightarrow> v);
          score0 = 1.0;
          score1 = (if \<not> truthy (isSyntacticallyCorrect r) then score0 - 0.5 else score0);
          score2 = (if \<not> truthy (hasBestPractices r) then score1 - 0.2 else score1);
          score3 = (case securityIssues r of
                      None \<Rightarrow> score2
                    | Some issues \<Rightarrow> if length issues > 0 then score2 - 0.3 else score2)
      in math_max (Finite 0)
           (math_min (Finite 1) (js_times score3 (nullish_or (confidence r) (Finite 1)))))"

definition intentMatch_generateScore :: "intent_verdict option \<Rightarrow> number" where
  "intentMatch_generateScore analyzeStepResult =
     (let r = (case analyzeStepResult of None \<Rightarrow> empty_intent_verdict | Some v \<Rightarrow> v)
      in if truthy (matchesIntent r) then nullish_or (intentConfidence r) (Finite 0.9)
         else Finite 0.2)"

text \<open>
  The base of the correctness score in the words of the specification: it starts at 1
  and loses 0.5, 0.2 and 0.3 for the three findings. The confidence is 1 when missing.
  A score lies in the unit interval when it is a finite number between 0 and 1.
\<close>

definition spec_base :: "correctness_verdict \<Rightarrow> real" where
  "spec_base r =
     1 - (if isSyntacticallyCorrect r = Some True then 0 else 0.5)
       - (if hasBestPractices r = Some True then 0 else 0.2)
       - (if securityIssues r = None \<or> securityIssues r = Some [] then 0 else 0.3)"

definition spec_confidence :: "correctness_verdict \<Rightarrow> number" where
  "spec_confidence r = (case confidence r of None \<Rightarrow> Finite 1 | Some c \<Rightarrow> c)"

fun in_unit :: "number \<Rightarrow> bool" where
  "in_unit (Finite x) = (0 \<le> x \<and> x \<le> 1)"
| "in_unit x = False"

section \<open>Notions of the specification\<close>

text \<open>
  Two characters are equal ignoring case when they are equal or are the two forms of
  one ASCII letter (the keywords are ASCII texts), and a keyword \<open>k\<close> occurs
  case-insensitively in \<open>s\<close> when some contiguous part of \<open>s\<close> equals \<open>k\<close>
  character by character, ignoring case. \<open>upper s\<close> is \<open>s\<close> with its ASCII letters
  in upper case and every other character unchanged.
\<close>

definition eq_ci :: "nat \<Rightarrow> nat \<Rightarrow> bool" where
  "eq_ci a b = (ascii_lower a = ascii_lower b)"

definition occurs_ci :: "jstring \<Rightarrow> jstring \<Rightarrow> bool" where
  "occurs_ci k s = (\<exists>u t v. s = u @ t @ v \<and> list_all2 eq_ci t k)"

definition upper :: "jstring \<Rightarrow> jstring" where
  "upper s = map ascii_upper s"

text \<open>
  An explicit join type immediately precedes a \<^verbatim>\<open>JOIN\<close>: somewhere in the text
  stands one of the five join types, then white space, then \<^verbatim>\<open>JOIN\<close>, all ignoring
  case.
\<close>

definition join_types :: "jstring list" where
  "join_types = [asc ''INNER'', asc ''LEFT'', asc ''RIGHT'', asc ''FULL'', asc ''CROSS'']"

definition explicit_join :: "jstring \<Rightarrow> bool" where
  "explicit_join s =
     search (\<lambda>t. list_ex (\<lambda>ty. match_ci ty t \<and>
                (let a = drop (length ty) t; b = dropWhile is_space a
                 in a \<noteq> b \<and> match_ci (asc ''JOIN'') b)) join_types) s"

section \<open>Tokens\<close>

text \<open>
  For the analysis of the formatter a text is read as a list of tokens: the maximal
  runs of word characters, and the single characters between them.
\<close>

datatype token = Word jstring | Sep nat

fun flat :: "token list \<Rightarrow> jstring" where
  "flat [] = []"
| "flat (Word w # ts) = w @ flat ts"
| "flat (Sep c # ts) = c # flat ts"

fun tokenize :: "jstring \<Rightarrow> token list" where
  "tokenize [] = []"
| "tokenize (c # cs) =
     (if is_word c
      then (case tokenize cs of Word w # ts \<Rightarrow> Word (c # w) # ts | ts \<Rightarrow> Word [c] # ts)
      else Sep c # tokenize cs)"

fun starts_word :: "token list \<Rightarrow> bool" where
  "starts_word (Word w # ts) = True"
| "starts_word ts = False"

text \<open>Well-formed token lists: words are not empty, and no two words are adjacent.\<close>

fun wf :: "token list \<Rightarrow> bool" where
  "wf [] = True"
| "wf (Sep c # ts) = (\<not> is_word c \<and> wf ts)"
| "wf (Word w # ts) = (w \<noteq> [] \<and> list_all is_word w \<and> \<not> starts_word ts \<and> wf ts)"

text \<open>
  One replacement of the formatter on tokens, for a keyword of one word \<open>k\<close> and for
  a keyword of two words \<open>a\<close> and \<open>b\<close> with one space between them.
\<close>

fun step1 :: "jstring \<Rightarrow> token list \<Rightarrow> token list" where
  "step1 k [] = []"
| "step1 k (Sep c # ts) = Sep c # step1 k ts"
| "step1 k (Word w # ts) =
     (if upper w = upper k
      then Sep (0x0A) # Word (upper k) # step1 k ts
      else Word w # step1 k ts)"

fun pair_at :: "jstring \<Rightarrow> jstring \<Rightarrow> jstring \<Rightarrow> token list \<Rightarrow> bool" where
  "pair_at a b w (Sep c # Word w2 # ts) =
     (c = 0x20 \<and> upper w = upper a \<and> upper w2 = upper b)"
| "pair_at a b w ts = False"

fun step2 :: "jstring \<Rightarrow> jstring \<Rightarrow> token list \<Rightarrow> token list" where
  "step2 a b [] = []"
| "step2 a b (Sep c # ts) = Sep c # step2 a b ts"
| "step2 a b (Word w # ts) =
     (if pair_at a b w ts
      then Sep (0x0A) # Word (upper a) # Sep (0x20) # Word (upper b) #
           step2 a b (drop 2 ts)
      else Word w # step2 a b ts)"

text \<open>
  All replacements of the formatter at once: \<open>mark S P\<close> puts a line feed before every
  word that is, ignoring case, one of the keywords \<open>S\<close>, and before every two words
  with one space between them that are one of the pairs \<open>P\<close>, and writes these words
  in upper case.
\<close>

definition pairs_at :: "(jstring \<times> jstring) list \<Rightarrow> jstring \<Rightarrow> token list \<Rightarrow> bool" where
  "pairs_at P w ts = list_ex (\<lambda>(a, b). pair_at a b w ts) P"

fun second_upper :: "token list \<Rightarrow> jstring" where
  "second_upper (Sep c # Word w2 # ts) = upper w2"
| "second_upper ts = []"

fun mark :: "jstring list \<Rightarrow> (jstring \<times> jstring) list \<Rightarrow> token list \<Rightarrow> token list" where
  "mark S P [] = []"
| "mark S P (Sep c # ts) = Sep c # mark S P ts"
| "mark S P (Word w # ts) =
     (if pairs_at P w ts
      then Sep (0x0A) # Word (upper w) # Sep (0x20) # Word (second_upper ts) #
           mark S P (drop 2 ts)
      else if upper w \<in> set S
      then Sep (0x0A) # Word (upper w) # mark S P ts
      else Word w # mark S P ts)"

definition upper_pairs :: "(jstring \<times> jstring) list \<Rightarrow> bool" where
  "upper_pairs P = list_all (\<lambda>(a, b). upper a = a \<and> upper b = b) P"

text \<open>
  The keywords of \<open>formatKeywords\<close> that take effect: the ten of one word, and the three
  of two words whose second word is not itself a keyword of one word.
\<close>

definition single_keywords :: "jstring list" where
  "single_keywords =
     [asc ''SET'', asc ''UPDATE'', asc ''VALUES'', asc ''OFFSET'', asc ''LIMIT'', asc ''HAVING'', asc ''JOIN'', asc ''WHERE'',
      asc ''FROM'', asc ''SELECT'']"

definition pair_keywords :: "(jstring \<times> jstring) list" where
  "pair_keywords = [(asc ''INSERT'', asc ''INTO''), (asc ''ORDER'', asc ''BY''), (asc ''GROUP'', asc ''BY'')]"

text \<open>
  \<open>mark_with e\<close> is \<open>mark\<close> with the tokens \<open>e b\<close> in place of the line feed, where
  \<open>b\<close> says that the keyword stands at the start of the text or behind a space.
  With \<open>spaced\<close> it puts one space before every keyword that has none.
\<close>

definition spaced :: "bool \<Rightarrow> token list" where
  "spaced b = (if b then [] else [Sep (0x20)])"

fun mark_with ::
  "(bool \<Rightarrow> token list) \<Rightarrow> jstring list \<Rightarrow> (jstring \<times> jstring) list \<Rightarrow> bool \<Rightarrow>
   token list \<Rightarrow> token list" where
  "mark_with e S P b [] = []"
| "mark_with e S P b (Sep c # ts) = Sep c # mark_with e S P (c = 0x20) ts"
| "mark_with e S P b (Word w # ts) =
     (if pairs_at P w ts
      then e b @ Word (upper w) # Sep (0x20) # Word (second_upper ts) #
           mark_with e S P False (drop 2 ts)
      else if upper w \<in> set S
      then e b @ Word (upper w) # mark_with e S P False ts
      else Word w # mark_with e S P False ts)"

section \<open>Lines and chunks\<close>

text \<open>
  Splitting at the characters of a class, and joining with a character; the lines that
  the formatter keeps, and the chunks of a text between its white space.
\<close>

fun split_on :: "(nat \<Rightarrow> bool) \<Rightarrow> jstring \<Rightarrow> jstring list" where
  "split_on P [] = [[]]"
| "split_on P (c # cs) =
     (if P c then [] # split_on P cs
      else (case split_on P cs of l # ls \<Rightarrow> (c # l) # ls | [] \<Rightarrow> [[c]]))"

fun join_with :: "nat \<Rightarrow> jstring list \<Rightarrow> jstring" where
  "join_with d [] = []"
| "join_with d [l] = l"
| "join_with d (l # ls) = l @ d # join_with d ls"

definition lines_of :: "jstring \<Rightarrow> jstring list" where
  "lines_of x = filter (\<lambda>line. length line > 0) (map trim (split_nl x))"

definition chunks :: "jstring \<Rightarrow> jstring list" where
  "chunks s = filter (\<lambda>l. l \<noteq> []) (split_on is_space s)"

text \<open>
  A text in which every white space character is a single space between two other
  characters; \<open>b\<close> says that the text starts behind a space or at the start.
\<close>

fun sparse :: "bool \<Rightarrow> jstring \<Rightarrow> bool" where
  "sparse b [] = True"
| "sparse b (c # s) =
     (if is_space c then c = 0x20 \<and> \<not> b \<and> sparse True s else sparse False s)"

fun normal_at :: "bool \<Rightarrow> jstring \<Rightarrow> bool" where
  "normal_at b [] = True"
| "normal_at b (c # s) =
     (if is_space c then c = 0x20 \<and> \<not> b \<and> s \<noteq> [] \<and> normal_at True s
      else normal_at False s)"

section \<open>Properties of the string operations\<close>

lemma asc_eq [simp]: "(asc a = asc b) = (a = b)"
  unfolding asc_def by (rule inj_map_eq_map) (simp add: inj_on_def)

lemma asc_ascii: "list_all is_ascii (asc a) = list_all (\<lambda>c. of_char c < (128::nat)) a"
  by (simp add: asc_def is_ascii_def list_all_iff)

lemma upper_lower: "ascii_upper (ascii_lower c) = ascii_upper c"
  by (auto simp: ascii_upper_def ascii_lower_def)

lemma lower_upper: "ascii_lower (ascii_upper c) = ascii_lower c"
  by (auto simp: ascii_upper_def ascii_lower_def)

lemma eq_ci_upper: "eq_ci a b = (ascii_upper a = ascii_upper b)"
  unfolding eq_ci_def by (metis upper_lower lower_upper)

lemma list_all2_eq_ci: "list_all2 eq_ci t k = (upper t = upper k)"
  unfolding upper_def eq_ci_upper
  by (induction t arbitrary: k) (auto simp: list_all2_Cons1)

lemma str_includes_iff: "str_includes s k = (\<exists>u v. s = u @ k @ v)"
proof (induction s)
  case Nil
  then show ?case by auto
next
  case (Cons c cs)
  show ?case
  proof
    assume "str_includes (c # cs) k"
    then consider "prefix k (c # cs)" | "str_includes cs k" by auto
    then show "\<exists>u v. c # cs = u @ k @ v"
    proof cases
      case 1
      then obtain v where "c # cs = k @ v" by (auto simp: prefix_def)
      then have "c # cs = [] @ k @ v" by simp
      then show ?thesis by blast
    next
      case 2
      with Cons obtain u v where "cs = u @ k @ v" by auto
      then have "c # cs = (c # u) @ k @ v" by simp
      then show ?thesis by blast
    qed
  next
    assume "\<exists>u v. c # cs = u @ k @ v"
    then obtain u v where uv: "c # cs = u @ k @ v" by auto
    show "str_includes (c # cs) k"
    proof (cases u)
      case Nil
      with uv have "prefix k (c # cs)" by (simp add: prefix_def)
      then show ?thesis by simp
    next
      case (Cons a u')
      with uv have "cs = u' @ k @ v" by simp
      with Cons.IH show ?thesis by auto
    qed
  qed
qed

lemma map_eq_append3:
  assumes "map f s = a @ b @ c"
  shows "\<exists>u t v. s = u @ t @ v \<and> map f t = b"
proof -
  from assms obtain u w where uw: "s = u @ w" "b @ c = map f w"
    unfolding map_eq_append_conv by blast
  from uw(2) obtain t v where "w = t @ v" "b = map f t"
    unfolding append_eq_map_conv by blast
  with uw(1) show ?thesis by auto
qed

lemma includes_upper_iff:
  assumes "upper k = k"
  shows "str_includes (upper s) k = occurs_ci k s"
proof
  assume "str_includes (upper s) k"
  then obtain u' v' where "upper s = u' @ k @ v'" by (auto simp: str_includes_iff)
  then have "\<exists>u t v. s = u @ t @ v \<and> map ascii_upper t = k"
    unfolding upper_def by (rule map_eq_append3)
  then obtain u t v where "s = u @ t @ v" "upper t = k"
    unfolding upper_def by blast
  with assms show "occurs_ci k s"
    unfolding occurs_ci_def list_all2_eq_ci by auto
next
  assume "occurs_ci k s"
  then obtain u t v where "s = u @ t @ v" "upper t = k"
    unfolding occurs_ci_def list_all2_eq_ci using assms by auto
  then have "upper s = upper u @ k @ upper v"
    by (auto simp: upper_def)
  then show "str_includes (upper s) k" unfolding str_includes_iff by blast
qed

lemma upper_kw: "upper (asc ''SELECT'') = asc ''SELECT''" "upper (asc ''INSERT'') = asc ''INSERT''"
  "upper (asc ''UPDATE'') = asc ''UPDATE''" "upper (asc ''DELETE'') = asc ''DELETE''"
  "upper (asc ''CREATE'') = asc ''CREATE''" "upper (asc ''DROP'') = asc ''DROP''"
  "upper (asc ''ALTER'') = asc ''ALTER''" "upper (asc ''FROM'') = asc ''FROM''"
  "upper (asc ''WHERE'') = asc ''WHERE''" "upper (asc ''JOIN'') = asc ''JOIN''"
  "upper (asc ''GROUP BY'') = asc ''GROUP BY''" "upper (asc ''ORDER BY'') = asc ''ORDER BY''"
  "upper (asc ''LIMIT'') = asc ''LIMIT''" "upper (asc ''NOT IN'') = asc ''NOT IN''"
  by (simp_all add: upper_def ascii_upper_def asc_def)

lemma match_ci_iff:
  "match_ci k s = (length k \<le> length s \<and> upper (take (length k) s) = upper k)"
  by (induction k s rule: match_ci.induct) (auto simp: upper_def)

lemma match_ci_append: "match_ci k a \<Longrightarrow> match_ci k (a @ b)"
  by (auto simp: match_ci_iff)

lemma occurs_ci_Cons: "occurs_ci k (c # s) = (match_ci k (c # s) \<or> occurs_ci k s)"
proof
  assume "occurs_ci k (c # s)"
  then obtain u t v where utv: "c # s = u @ t @ v" "upper t = upper k"
    unfolding occurs_ci_def list_all2_eq_ci by blast
  show "match_ci k (c # s) \<or> occurs_ci k s"
  proof (cases u)
    case Nil
    from utv(2) have "length t = length k" unfolding upper_def by (rule map_eq_imp_length_eq)
    with utv Nil have "match_ci k (c # s)" by (simp add: match_ci_iff)
    then show ?thesis ..
  next
    case (Cons a u')
    with utv have "s = u' @ t @ v" by simp
    with utv(2) have "occurs_ci k s" unfolding occurs_ci_def list_all2_eq_ci by blast
    then show ?thesis ..
  qed
next
  assume "match_ci k (c # s) \<or> occurs_ci k s"
  then show "occurs_ci k (c # s)"
  proof
    assume "match_ci k (c # s)"
    then have "c # s = [] @ take (length k) (c # s) @ drop (length k) (c # s)"
      "upper (take (length k) (c # s)) = upper k"
      by (simp_all add: match_ci_iff)
    then show ?thesis unfolding occurs_ci_def list_all2_eq_ci by blast
  next
    assume "occurs_ci k s"
    then obtain u t v where "s = u @ t @ v" "upper t = upper k"
      unfolding occurs_ci_def list_all2_eq_ci by blast
    then have "c # s = (c # u) @ t @ v" "upper t = upper k" by simp_all
    then show ?thesis unfolding occurs_ci_def list_all2_eq_ci by blast
  qed
qed

lemma occurs_ci_Nil: "occurs_ci k [] = (k = [])"
  unfolding occurs_ci_def by auto

lemma occurs_ci_short: "length s < length k \<Longrightarrow> \<not> occurs_ci k s"
  unfolding occurs_ci_def by (auto dest: list_all2_lengthD)

text \<open>
  \<^verbatim>\<open>toUpperCase\<close> works code point by code point, and on ASCII text it is \<open>upper\<close>.
\<close>

lemma toUpperCase_append: "toUpperCase (a @ b) = toUpperCase a @ toUpperCase b"
  by (simp add: toUpperCase_def)

lemma toUpperCase_ascii: "list_all is_ascii s \<Longrightarrow> toUpperCase s = upper s"
  by (induction s) (simp_all add: toUpperCase_def upper_def toUpperCase_cp_def is_ascii_def)

lemma ascii_upper_ascii: "is_ascii (ascii_upper c) = is_ascii c"
  by (auto simp: ascii_upper_def is_ascii_def)

lemma upper_eq_ascii: "upper t = upper k \<Longrightarrow> list_all is_ascii k \<Longrightarrow> list_all is_ascii t"
proof (induction t arbitrary: k)
  case Nil
  then show ?case by simp
next
  case (Cons c t)
  then obtain x k' where k: "k = x # k'" by (cases k) (auto simp: upper_def)
  with Cons.prems have "ascii_upper c = ascii_upper x" "upper t = upper k'"
    "is_ascii x" "list_all is_ascii k'"
    by (simp_all add: upper_def)
  moreover from this have "is_ascii c" by (metis ascii_upper_ascii)
  ultimately show ?case using Cons.IH [of k'] by simp
qed

lemma trim_ascii: "list_all is_ascii s \<Longrightarrow> list_all is_ascii (trim s)"
proof -
  assume a: "list_all is_ascii s"
  have "set (trim s) \<subseteq> set s"
    by (auto simp: trim_def dest!: set_dropWhileD)
  with a show ?thesis unfolding list_all_iff by blast
qed

text \<open>
  Some values of the case mappings outside ASCII: the sharp s, the long s, the dotless
  i, the ligature fi and the e with acute accent in upper case; the capital I with dot
  and the Kelvin sign in lower case; the capital sigma at the end of a word and inside
  one.
\<close>

lemma case_mapping_examples:
  "toUpperCase [0xDF] = asc ''SS''"
  "toUpperCase [0x17F] = asc ''S''"
  "toUpperCase [0x131] = asc ''I''"
  "toUpperCase [0xFB01] = asc ''FI''"
  "toUpperCase [0xE9] = [0xC9]"
  "toLowerCase [0x130] = [0x69, 0x307]"
  "toLowerCase [0x212A] = asc ''k''"
  "toLowerCase [0x391, 0x3A3] = [0x3B1, 0x3C2]"
  "toLowerCase [0x391, 0x3A3, 0x391] = [0x3B1, 0x3C3, 0x3B1]"
  by code_simp+

text \<open>
  A keyword in ASCII upper case that occurs case-insensitively in a text is a substring
  of the upper-cased text; for an ASCII text the converse holds too.
\<close>

lemma occurs_ci_includes:
  assumes "upper k = k" "list_all is_ascii k" "occurs_ci k s"
  shows "str_includes (toUpperCase s) k"
proof -
  from assms(3) obtain u t v where s: "s = u @ t @ v" and t: "upper t = upper k"
    unfolding occurs_ci_def list_all2_eq_ci by blast
  from t assms(2) have "list_all is_ascii t" by (rule upper_eq_ascii)
  then have "toUpperCase t = k" using t assms(1) by (simp add: toUpperCase_ascii)
  then have "toUpperCase s = toUpperCase u @ k @ toUpperCase v"
    unfolding s by (simp add: toUpperCase_append)
  then show ?thesis unfolding str_includes_iff by blast
qed

lemma includes_ascii_iff:
  assumes "upper k = k" "list_all is_ascii s"
  shows "str_includes (toUpperCase s) k = occurs_ci k s"
  using assms by (simp add: toUpperCase_ascii includes_upper_iff)

lemma ascii_kw: "list_all is_ascii (asc ''SELECT'')" "list_all is_ascii (asc ''INSERT'')"
  "list_all is_ascii (asc ''UPDATE'')" "list_all is_ascii (asc ''DELETE'')"
  "list_all is_ascii (asc ''CREATE'')" "list_all is_ascii (asc ''DROP'')"
  "list_all is_ascii (asc ''ALTER'')" "list_all is_ascii (asc ''FROM'')"
  "list_all is_ascii (asc ''WHERE'')" "list_all is_ascii (asc ''JOIN'')"
  "list_all is_ascii (asc ''GROUP BY'')" "list_all is_ascii (asc ''ORDER BY'')"
  "list_all is_ascii (asc ''LIMIT'')" "list_all is_ascii (asc ''NOT IN'')"
  by (simp_all add: is_ascii_def asc_def)

section \<open>Properties of the validator\<close>

lemma validate_isValid:
  "isValid (validateSQL sql dialect) =
     list_ex (\<lambda>keyword. str_includes (toUpperCase (trim sql)) keyword) sqlKeywords"
  unfolding validateSQL_def Let_def by simp

lemma validate_warning:
  "isValid (validateSQL sql dialect) = False \<Longrightarrow>
   no_keywords_warning \<in> set (warnings (validateSQL sql dialect))"
  unfolding validateSQL_def Let_def by (simp split: if_splits)

text \<open>
  C1 as it is stated, with \<open>isValid = False\<close> exactly when none of the ten keywords
  occurs case-insensitively in the trimmed input, fails on the text that is the sharp
  s, U+00DF, followed by \<^verbatim>\<open>elect 1\<close>. None of the ten keywords occurs in it, with
  or without regard to case. The validator searches the upper-cased text, which is
  \<^verbatim>\<open>SSELECT 1\<close>, finds \<^verbatim>\<open>SELECT\<close> there and answers \<open>isValid = True\<close>.
\<close>

theorem validateSQL_isValid_sharp_s:
  "toUpperCase (trim (0xDF # asc ''elect 1'')) = asc ''SSELECT 1''
   \<and> isValid (validateSQL (0xDF # asc ''elect 1'') (asc ''postgresql'')) = True
   \<and> \<not> occurs_ci (asc ''SELECT'') (trim (0xDF # asc ''elect 1''))
   \<and> \<not> occurs_ci (asc ''INSERT'') (trim (0xDF # asc ''elect 1''))
   \<and> \<not> occurs_ci (asc ''UPDATE'') (trim (0xDF # asc ''elect 1''))
   \<and> \<not> occurs_ci (asc ''DELETE'') (trim (0xDF # asc ''elect 1''))
   \<and> \<not> occurs_ci (asc ''CREATE'') (trim (0xDF # asc ''elect 1''))
   \<and> \<not> occurs_ci (asc ''DROP'') (trim (0xDF # asc ''elect 1''))
   \<and> \<not> occurs_ci (asc ''ALTER'') (trim (0xDF # asc ''elect 1''))
   \<and> \<not> occurs_ci (asc ''FROM'') (trim (0xDF # asc ''elect 1''))
   \<and> \<not> occurs_ci (asc ''WHERE'') (trim (0xDF # asc ''elect 1''))
   \<and> \<not> occurs_ci (asc ''JOIN'') (trim (0xDF # asc ''elect 1''))"
proof -
  have u: "toUpperCase (trim (0xDF # asc ''elect 1'')) = asc ''SSELECT 1''"
    by code_simp
  have "list_ex (\<lambda>keyword. str_includes (toUpperCase (trim (0xDF # asc ''elect 1''))) keyword)
          sqlKeywords"
    by code_simp
  then have v: "isValid (validateSQL (0xDF # asc ''elect 1'') (asc ''postgresql'')) = True"
    by (simp add: validate_isValid)
  have "\<not> list_ex (\<lambda>keyword. str_includes (upper (trim (0xDF # asc ''elect 1''))) keyword)
          sqlKeywords"
    by code_simp
  then have "\<forall>k \<in> set sqlKeywords. \<not> occurs_ci k (trim (0xDF # asc ''elect 1''))"
    unfolding list_ex_iff sqlKeywords_def using upper_kw by (simp add: includes_upper_iff)
  with u v show ?thesis by (simp add: sqlKeywords_def)
qed

text \<open>
  C1, amended: \<open>validateSQL\<close> returns \<open>isValid = False\<close> exactly when none of the ten
  keywords is a substring of the upper-cased trimmed input. This is so only if none of
  the ten keywords occurs case-insensitively in the trimmed input, and for an input of
  ASCII characters exactly if none does. Whenever \<open>isValid = False\<close>, the list of
  warnings holds the warning about missing keywords (so it is not empty).
\<close>

theorem validateSQL_isValid:
  "(isValid (validateSQL sql dialect) = False) =
     (\<forall>k \<in> set [asc ''SELECT'', asc ''INSERT'', asc ''UPDATE'', asc ''DELETE'', asc ''CREATE'',
                 asc ''DROP'', asc ''ALTER'', asc ''FROM'', asc ''WHERE'', asc ''JOIN''].
        \<not> str_includes (toUpperCase (trim sql)) k)
   \<and> (isValid (validateSQL sql dialect) = False \<longrightarrow>
        (\<forall>k \<in> set [asc ''SELECT'', asc ''INSERT'', asc ''UPDATE'', asc ''DELETE'', asc ''CREATE'',
                    asc ''DROP'', asc ''ALTER'', asc ''FROM'', asc ''WHERE'', asc ''JOIN''].
           \<not> occurs_ci k (trim sql)))
   \<and> (list_all is_ascii sql \<longrightarrow>
        (isValid (validateSQL sql dialect) = False) =
          (\<forall>k \<in> set [asc ''SELECT'', asc ''INSERT'', asc ''UPDATE'', asc ''DELETE'', asc ''CREATE'',
                      asc ''DROP'', asc ''ALTER'', asc ''FROM'', asc ''WHERE'', asc ''JOIN''].
             \<not> occurs_ci k (trim sql)))
   \<and> (isValid (validateSQL sql dialect) = False \<longrightarrow>
        warnings (validateSQL sql dialect) \<noteq> [] \<and>
        no_keywords_warning \<in> set (warnings (validateSQL sql dialect)))"
proof -
  let ?K = "[asc ''SELECT'', asc ''INSERT'', asc ''UPDATE'', asc ''DELETE'', asc ''CREATE'',
             asc ''DROP'', asc ''ALTER'', asc ''FROM'', asc ''WHERE'', asc ''JOIN'']"
  have kw: "\<And>k. k \<in> set ?K \<Longrightarrow> upper k = k \<and> list_all is_ascii k"
    using upper_kw ascii_kw by auto
  have a: "(isValid (validateSQL sql dialect) = False) =
      (\<forall>k \<in> set ?K. \<not> str_includes (toUpperCase (trim sql)) k)"
    unfolding validate_isValid list_ex_iff sqlKeywords_def by blast
  have b: "\<forall>k \<in> set ?K. \<not> occurs_ci k (trim sql)"
    if "isValid (validateSQL sql dialect) = False"
    using that kw occurs_ci_includes unfolding a by blast
  have c: "(isValid (validateSQL sql dialect) = False) =
      (\<forall>k \<in> set ?K. \<not> occurs_ci k (trim sql))"
    if "list_all is_ascii sql"
  proof -
    from that have "list_all is_ascii (trim sql)" by (rule trim_ascii)
    with kw have "\<And>k. k \<in> set ?K \<Longrightarrow>
        str_includes (toUpperCase (trim sql)) k = occurs_ci k (trim sql)"
      by (intro includes_ascii_iff) blast+
    then show ?thesis unfolding a by blast
  qed
  have d: "warnings (validateSQL sql dialect) \<noteq> [] \<and>
      no_keywords_warning \<in> set (warnings (validateSQL sql dialect))"
    if "isValid (validateSQL sql dialect) = False"
    using validate_warning [OF that] by auto
  from a b c d show ?thesis by blast
qed

theorem validateSQL_isValid_witness:
  "list_all is_ascii (asc ''  hello world '')
   \<and> isValid (validateSQL (asc ''  hello world '') (asc ''postgresql'')) = False
   \<and> \<not> str_includes (toUpperCase (trim (asc ''  hello world ''))) (asc ''SELECT'')
   \<and> \<not> occurs_ci (asc ''SELECT'') (trim (asc ''  hello world ''))
   \<and> \<not> occurs_ci (asc ''JOIN'') (trim (asc ''  hello world ''))
   \<and> no_keywords_warning \<in> set (warnings (validateSQL (asc ''  hello world '') (asc ''postgresql'')))"
proof -
  have a: "list_all is_ascii (asc ''  hello world '')"
    by (simp add: asc_def is_ascii_def)
  have "\<not> list_ex (\<lambda>keyword. str_includes (toUpperCase (trim (asc ''  hello world ''))) keyword)
          sqlKeywords"
    by code_simp
  then have "isValid (validateSQL (asc ''  hello world '') (asc ''postgresql'')) = False"
    by (simp add: validate_isValid)
  with a validateSQL_isValid [of "asc ''  hello world ''" "asc ''postgresql''"] show ?thesis
    by simp
qed

text \<open>On the empty string the validator answers with the warning about missing keywords.\<close>

lemma validateSQL_empty:
  "isValid (validateSQL [] dialect) = False \<and>
   warnings (validateSQL [] dialect) = [no_keywords_warning]"
  unfolding validateSQL_def Let_def
  by (simp add: trim_def toUpperCase_def sqlKeywords_def asc_def)

lemma validate_suggestions:
  "suggestions (validateSQL sql dialect) =
     (if str_includes (toUpperCase (trim sql)) (asc ''JOIN'') \<and>
         \<not> re_join_type (toUpperCase (trim sql))
      then [join_type_suggestion] else []) @
     (if dialect = asc ''postgresql''
      then [asc ''PostgreSQL supports RETURNING clause for INSERT/UPDATE/DELETE operations'']
      else if dialect = asc ''mysql'' then [asc ''MySQL supports LIMIT clause for result pagination'']
      else [])"
  unfolding validateSQL_def Let_def by simp

text \<open>
  C5: the suggestion to use an explicit join type is to be appended exactly when the
  text contains \<^verbatim>\<open>JOIN\<close> and no explicit join type immediately precedes a
  \<^verbatim>\<open>JOIN\<close>. The pattern of the source, \<^verbatim>\<open>/INNER|LEFT|RIGHT|FULL|CROSS\s+JOIN/\<close>,
  also matches a bare \<^verbatim>\<open>INNER\<close>, \<^verbatim>\<open>LEFT\<close>, \<^verbatim>\<open>RIGHT\<close> or \<^verbatim>\<open>FULL\<close> anywhere in the
  text. On the query below \<^verbatim>\<open>FULL\<close> occurs in the column name \<^verbatim>\<open>full_name\<close>: the text
  contains \<^verbatim>\<open>JOIN\<close>, no join type precedes it, and the suggestion is not made.
\<close>

theorem validateSQL_join_suggestion_missing:
  "occurs_ci (asc ''JOIN'') (trim (asc ''SELECT full_name FROM a JOIN b ON a.id = b.id''))
   \<and> \<not> explicit_join (trim (asc ''SELECT full_name FROM a JOIN b ON a.id = b.id''))
   \<and> join_type_suggestion \<notin> set (suggestions
        (validateSQL (asc ''SELECT full_name FROM a JOIN b ON a.id = b.id'') (asc ''sqlite'')))"
proof -
  have a: "str_includes (upper (trim (asc ''SELECT full_name FROM a JOIN b ON a.id = b.id'')))
             (asc ''JOIN'')"
    by code_simp
  have b: "\<not> explicit_join (trim (asc ''SELECT full_name FROM a JOIN b ON a.id = b.id''))"
    by code_simp
  have c: "re_join_type (toUpperCase (trim (asc ''SELECT full_name FROM a JOIN b ON a.id = b.id'')))"
    by code_simp
  have "suggestions (validateSQL (asc ''SELECT full_name FROM a JOIN b ON a.id = b.id'') (asc ''sqlite''))
          = []"
    unfolding validate_suggestions using c by simp
  with a b show ?thesis by (simp add: includes_upper_iff upper_kw)
qed

section \<open>Properties of the formatter\<close>

subsection \<open>Characters and tokens\<close>

lemma up_word: "is_word (ascii_upper c) = is_word c"
  by (auto simp: ascii_upper_def is_word_def)

lemma up_idem: "ascii_upper (ascii_upper c) = ascii_upper c"
  by (auto simp: ascii_upper_def)

lemma up_space: "(ascii_upper c = 0x20) = (c = 0x20)"
  by (auto simp: ascii_upper_def)

lemma space_not_word: "is_space c \<Longrightarrow> \<not> is_word c"
  by (auto simp: is_space_def is_word_def)

lemma sp_not_word: "\<not> is_word (0x20)"
  by (simp add: is_word_def)

lemma word_ascii: "is_word c \<Longrightarrow> is_ascii c"
  by (auto simp: is_word_def is_ascii_def)

lemma toUpperCase_word: "list_all is_word a \<Longrightarrow> toUpperCase a = upper a"
  by (rule toUpperCase_ascii) (auto simp: list_all_iff word_ascii)

lemma toUpperCase_pair:
  "list_all is_word a \<Longrightarrow> list_all is_word b \<Longrightarrow>
   toUpperCase (a @ 0x20 # b) = upper a @ 0x20 # upper b"
  by (simp add: toUpperCase_append toUpperCase_word [symmetric])
     (simp add: toUpperCase_def toUpperCase_cp_def ascii_upper_def)

lemma upper_idem: "upper (upper w) = upper w"
  by (simp add: upper_def up_idem)

lemma upper_all_word: "list_all is_word (upper w) = list_all is_word w"
  by (induction w) (simp_all add: upper_def up_word)

lemma upper_eq_all_word:
  "upper w = upper a \<Longrightarrow> list_all is_word w = list_all is_word a"
  by (metis upper_all_word)

lemma upper_Nil: "(upper w = []) = (w = [])"
  by (simp add: upper_def)

lemma upper_length: "length (upper w) = length w"
  by (simp add: upper_def)

lemma flat_tokenize: "flat (tokenize s) = s"
proof (induction s)
  case Nil
  then show ?case by simp
next
  case (Cons c cs)
  then show ?case
    by (cases "tokenize cs" rule: flat.cases) auto
qed

lemma wf_tokenize: "wf (tokenize s)"
proof (induction s)
  case Nil
  then show ?case by simp
next
  case (Cons c cs)
  then show ?case
    by (cases "tokenize cs" rule: flat.cases) auto
qed

lemma flat_starts:
  "wf ts \<Longrightarrow> is_word_opt (char_at (flat ts) 0) = starts_word ts"
  by (cases ts rule: flat.cases) (auto simp: char_at_def is_word_opt_def neq_Nil_conv)

lemma match_ci_app:
  "match_ci (a @ b) s = (match_ci a s \<and> match_ci b (drop (length a) s))"
  by (induction a s rule: match_ci.induct) auto

lemma match_ci_upper:
  assumes "upper w = upper a"
  shows "match_ci a (w @ r)"
proof -
  from assms have "length a = length w" by (metis upper_length)
  with assms show ?thesis by (simp add: match_ci_iff)
qed

lemma word_run_match:
  assumes "a \<noteq> []" "list_all is_word a" "list_all is_word w" "\<not> is_word_opt (char_at r 0)"
  shows "(match_ci a (w @ r) \<and> \<not> is_word_opt (char_at (w @ r) (length a))) =
         (upper w = upper a)"
  using assms
proof (induction a arbitrary: w)
  case Nil
  then show ?case by simp
next
  case (Cons x a)
  show ?case
  proof (cases w)
    case Nil
    show ?thesis
    proof (cases r)
      case Nil
      with \<open>w = []\<close> show ?thesis by (simp add: upper_def)
    next
      case (Cons c r')
      with Cons.prems have "\<not> is_word c" by (simp add: char_at_def is_word_opt_def)
      moreover from Cons.prems have "is_word x" by simp
      ultimately have "ascii_upper c \<noteq> ascii_upper x" by (metis up_word)
      with Cons \<open>w = []\<close> show ?thesis by (simp add: upper_def)
    qed
  next
    case (Cons c w')
    show ?thesis
    proof (cases "a = []")
      case True
      have "is_word_opt (char_at (w' @ r) 0) = (w' \<noteq> [])"
        using Cons.prems(4) Cons.prems(3) \<open>w = c # w'\<close>
        by (cases w') (auto simp: char_at_def is_word_opt_def)
      then show ?thesis
        using True \<open>w = c # w'\<close>
        by (auto simp: upper_def char_at_def)
    next
      case False
      from Cons.prems \<open>w = c # w'\<close> have "list_all is_word a" "list_all is_word w'" by simp_all
      from Cons.IH [OF False this Cons.prems(4)]
      have ih: "(match_ci a (w' @ r) \<and> \<not> is_word_opt (char_at (w' @ r) (length a))) =
                (upper w' = upper a)" .
      have "char_at ((c # w') @ r) (length (x # a)) = char_at (w' @ r) (length a)"
        by (simp add: char_at_def)
      with ih \<open>w = c # w'\<close> show ?thesis by (auto simp: upper_def)
    qed
  qed
qed

lemma match_ci_last_word:
  "match_ci a s \<Longrightarrow> a \<noteq> [] \<Longrightarrow> is_word (last a) \<Longrightarrow>
   is_word_opt (char_at s (length a - 1))"
proof (induction a s rule: match_ci.induct)
  case (1 s)
  then show ?case by simp
next
  case (2 k ks)
  then show ?case by simp
next
  case (3 k ks c cs)
  show ?case
  proof (cases "ks = []")
    case True
    with 3 show ?thesis by (simp add: char_at_def is_word_opt_def) (metis up_word)
  next
    case False
    then obtain k' ks' where ks: "ks = k' # ks'" by (cases ks) auto
    from False 3 have "is_word_opt (char_at cs (length ks - 1))" by simp
    then have "is_word_opt (char_at cs (length ks'))" using ks by simp
    moreover have "char_at (c # cs) (Suc (length ks')) = char_at cs (length ks')"
      by (simp add: char_at_def)
    ultimately show ?thesis using ks by simp
  qed
qed

lemma skip_sep:
  assumes "k \<noteq> []" "is_word (hd k)" "\<not> is_word c"
  shows "replace_word k p (c # s) = c # replace_word k (Some c) s"
proof -
  from assms obtain x k' where "k = x # k'" "is_word x" by (cases k) auto
  with assms(3) have "\<not> match_ci k (c # s)" by (auto) (metis up_word)
  then show ?thesis by (simp add: match_word_def)
qed

lemma skip_run:
  "list_all is_word w \<Longrightarrow> is_word_opt p \<Longrightarrow>
   replace_word k p (w @ r) = w @ replace_word k (if w = [] then p else Some (last w)) r"
proof (induction w arbitrary: p)
  case Nil
  then show ?case by simp
next
  case (Cons c w)
  then have "\<not> match_word k p (c # w @ r)"
    by (simp add: match_word_def boundary_def char_at_def is_word_opt_def)
  moreover from Cons have "replace_word k (Some c) (w @ r) =
      w @ replace_word k (if w = [] then Some c else Some (last w)) r"
    by (simp add: is_word_opt_def)
  ultimately show ?case by simp
qed

lemma match_word_run:
  assumes "a \<noteq> []" "list_all is_word a" "w \<noteq> []" "list_all is_word w"
    "\<not> is_word_opt p" "\<not> is_word_opt (char_at r 0)"
  shows "match_word a p (w @ r) = (upper w = upper a)"
proof -
  from assms have b0: "boundary p (char_at (w @ r) 0)"
    by (cases w) (simp_all add: boundary_def char_at_def is_word_opt_def)
  have "match_word a p (w @ r) =
      (match_ci a (w @ r) \<and> \<not> is_word_opt (char_at (w @ r) (length a)))"
    using b0 match_ci_last_word [of a "w @ r"] assms(1,2)
    by (auto simp: match_word_def boundary_def list_all_iff)
  with word_run_match [OF assms(1,2,4,6)] show ?thesis by simp
qed

lemma replace_word_run:
  assumes "a \<noteq> []" "list_all is_word a" "w \<noteq> []" "list_all is_word w"
    "\<not> is_word_opt p" "\<not> is_word_opt (char_at r 0)"
  shows "replace_word a p (w @ r) =
     (if upper w = upper a
      then 0x0A # upper a @ replace_word a (Some (last w)) r
      else w @ replace_word a (Some (last w)) r)"
proof -
  from assms(3) obtain c w' where w: "w = c # w'" by (cases w) auto
  show ?thesis
  proof (cases "upper w = upper a")
    case True
    then have len: "length a = length w" by (metis upper_length)
    from True match_word_run [OF assms] have "match_word a p (c # w' @ r)" using w by simp
    moreover have "char_at (w @ r) (length a - 1) = Some (last w)"
      using len w by (simp add: char_at_def nth_append last_conv_nth)
    moreover have "drop (length a) (w @ r) = r" using len by simp
    ultimately show ?thesis using True assms(1) w toUpperCase_word [OF assms(2)] by simp
  next
    case False
    with match_word_run [OF assms] have "\<not> match_word a p (c # w' @ r)" using w by simp
    moreover have "replace_word a (Some c) (w' @ r) =
        w' @ replace_word a (if w' = [] then Some c else Some (last w')) r"
      using assms(4) w by (intro skip_run) (simp_all add: is_word_opt_def)
    ultimately show ?thesis using False w by simp
  qed
qed

lemma step1_correct:
  assumes "k \<noteq> []" "list_all is_word k"
  shows "wf ts \<Longrightarrow> \<not> is_word_opt p \<or> \<not> starts_word ts \<Longrightarrow>
         replace_word k p (flat ts) = flat (step1 k ts)"
proof (induction ts arbitrary: p rule: flat.induct)
  case 1
  then show ?case by simp
next
  case (2 w ts)
  from 2(2,3) have p: "\<not> is_word_opt p" and w: "w \<noteq> []" "list_all is_word w"
    and ts: "\<not> starts_word ts" "wf ts" by simp_all
  from ts have r: "\<not> is_word_opt (char_at (flat ts) 0)" by (simp add: flat_starts)
  have ih: "replace_word k (Some (last w)) (flat ts) = flat (step1 k ts)"
    using 2(1) ts by simp
  show ?case
    using replace_word_run [OF assms w p r] ih by simp
next
  case (3 c ts)
  from assms have hk: "is_word (hd k)" by (cases k) simp_all
  from 3(2) have c: "\<not> is_word c" and ts: "wf ts" by simp_all
  have "replace_word k (Some c) (flat ts) = flat (step1 k ts)"
    using 3(1) [OF ts] c by (simp add: is_word_opt_def)
  with skip_sep [OF assms(1) hk c] show ?case by simp
qed

subsection \<open>A keyword of two words\<close>

lemma pair_at_iff:
  "pair_at a b w ts =
     (\<exists>w2 ts'. ts = Sep (0x20) # Word w2 # ts' \<and>
        upper w = upper a \<and> upper w2 = upper b)"
  by (cases "(a, b, w, ts)" rule: pair_at.cases) auto

lemma char_at_append: "char_at (u @ v) (length u + n) = char_at v n"
  by (simp add: char_at_def)

lemma char_at_Suc: "char_at (c # v) (Suc n) = char_at v n"
  by (simp add: char_at_def)

lemma match_word_pair:
  assumes a: "a \<noteq> []" "list_all is_word a" and b: "b \<noteq> []" "list_all is_word b"
    and wf: "wf (Word w # ts)" and p: "\<not> is_word_opt p"
  shows "match_word (a @ 0x20 # b) p (w @ flat ts) = pair_at a b w ts"
proof -
  let ?k = "a @ 0x20 # b"
  let ?s = "w @ flat ts"
  from wf have w: "w \<noteq> []" "list_all is_word w" and ts: "\<not> starts_word ts" "wf ts"
    by simp_all
  from ts have r: "\<not> is_word_opt (char_at (flat ts) 0)" by (simp add: flat_starts)
  from w p have b0: "boundary p (char_at ?s 0)"
    by (cases w) (simp_all add: boundary_def char_at_def is_word_opt_def)
  have lk: "length ?k - 1 = length a + length b" by simp
  have lastk: "is_word (last ?k)" using b by (simp add: list_all_iff)
  have mw: "match_word ?k p ?s =
      (match_ci ?k ?s \<and> \<not> is_word_opt (char_at ?s (length ?k)))"
    using b0 match_ci_last_word [of ?k ?s] lastk
    by (auto simp: match_word_def boundary_def simp del: length_append)
  show ?thesis
  proof
    assume "pair_at a b w ts"
    then obtain w2 ts' where ts': "ts = Sep (0x20) # Word w2 # ts'"
      and ua: "upper w = upper a" and ub: "upper w2 = upper b"
      unfolding pair_at_iff by blast
    from ua have la: "length a = length w" by (metis upper_length)
    from ub have lb: "length b = length w2" by (metis upper_length)
    from wf ts' have "\<not> starts_word ts'" "wf ts'" by simp_all
    then have r': "\<not> is_word_opt (char_at (flat ts') 0)" by (simp add: flat_starts)
    have "match_ci a ?s" using ua by (rule match_ci_upper)
    moreover have "match_ci (0x20 # b) (drop (length a) ?s)"
      using la ts' match_ci_upper [OF ub] by simp
    moreover have "char_at ?s (length ?k) = char_at (flat ts') 0"
    proof -
      have "char_at ?s (length ?k) =
        char_at (w @ 0x20 # w2 @ flat ts') (length w + Suc (length w2 + 0))"
        using la lb ts' by simp
      also have "\<dots> = char_at (flat ts') 0"
        unfolding char_at_append char_at_Suc ..
      finally show ?thesis .
    qed
    ultimately show "match_word ?k p ?s"
      unfolding mw match_ci_app using r' by simp
  next
    assume "match_word ?k p ?s"
    then have m1: "match_ci a ?s" and m2: "match_ci (0x20 # b) (drop (length a) ?s)"
      and e: "\<not> is_word_opt (char_at ?s (length ?k))"
      unfolding mw match_ci_app by simp_all
    from m2 obtain c rest where dr: "drop (length a) ?s = c # rest"
      and c: "ascii_upper c = 0x20" and mb: "match_ci b rest"
      by (cases "drop (length a) ?s") (auto simp: ascii_upper_def asc_def)
    from c have c': "c = 0x20" by (simp add: up_space)
    from dr have "char_at ?s (length a) = Some c"
      by (metis char_at_def drop_eq_Nil hd_drop_conv_nth linorder_not_less list.distinct(1) list.sel(1))
    with c' have "\<not> is_word_opt (char_at ?s (length a))"
      by (simp add: is_word_opt_def sp_not_word)
    with m1 word_run_match [OF a w(2) r] have ua: "upper w = upper a" by simp
    then have la: "length a = length w" by (metis upper_length)
    with dr c' have ft: "flat ts = 0x20 # rest" by simp
    with ts obtain ts1 where ts1: "ts = Sep (0x20) # ts1" "flat ts1 = rest"
      by (cases ts rule: flat.cases) auto
    have "char_at ?s (length ?k) = char_at (w @ 0x20 # rest) (length w + Suc (length b))"
      using la ft by simp
    also have "\<dots> = char_at rest (length b)"
      unfolding char_at_append char_at_Suc ..
    finally have e': "\<not> is_word_opt (char_at (flat ts1) (length b))"
      using e ts1 by simp
    from b obtain y b' where b': "b = y # b'" "is_word y" by (cases b) auto
    from ts1 wf have wf1: "wf ts1" by simp
    show "pair_at a b w ts"
    proof (cases ts1 rule: flat.cases)
      case 1
      with mb ts1 b' show ?thesis by simp
    next
      case (2 w2 ts')
      with wf1 have "list_all is_word w2" "\<not> starts_word ts'" "wf ts'" by simp_all
      then have "list_all is_word w2" "\<not> is_word_opt (char_at (flat ts') 0)"
        by (simp_all add: flat_starts)
      from word_run_match [OF b this] mb e' ts1 2
      have "upper w2 = upper b" by simp
      with ua ts1 2 show ?thesis by simp
    next
      case (3 c' ts')
      with wf1 have "\<not> is_word c'" by simp
      with b' have "ascii_upper c' \<noteq> ascii_upper y" by (metis up_word)
      moreover from ts1 3 have "rest = c' # flat ts'" by simp
      ultimately have "\<not> match_ci b rest" using b' by simp
      with mb show ?thesis by simp
    qed
  qed
qed

lemma replace_word_pair:
  assumes a: "a \<noteq> []" "list_all is_word a" and b: "b \<noteq> []" "list_all is_word b"
    and wf: "wf (Word w # ts)" and p: "\<not> is_word_opt p"
  shows "replace_word (a @ 0x20 # b) p (w @ flat ts) =
     (if pair_at a b w ts
      then 0x0A # upper a @ 0x20 # upper b @
           replace_word (a @ 0x20 # b) (char_at (flat ts) (length b)) (flat (drop 2 ts))
      else w @ replace_word (a @ 0x20 # b) (Some (last w)) (flat ts))"
proof -
  let ?k = "a @ 0x20 # b"
  from wf obtain c w' where w: "w = c # w'" and ww: "list_all is_word w" by (cases w) auto
  show ?thesis
  proof (cases "pair_at a b w ts")
    case True
    then obtain w2 ts' where ts': "ts = Sep (0x20) # Word w2 # ts'"
      and ua: "upper w = upper a" and ub: "upper w2 = upper b"
      unfolding pair_at_iff by blast
    from ua have la: "length a = length w" by (metis upper_length)
    from ub have lb: "length b = length w2" by (metis upper_length)
    from True match_word_pair [OF a b wf p] have "match_word ?k p (c # w' @ flat ts)"
      using w by simp
    moreover have "char_at (w @ flat ts) (length ?k - 1) = char_at (flat ts) (length b)"
    proof -
      have "char_at (w @ flat ts) (length ?k - 1) = char_at (w @ flat ts) (length w + length b)"
        using la by simp
      then show ?thesis unfolding char_at_append .
    qed
    moreover have "drop (length ?k) (w @ flat ts) = flat (drop 2 ts)"
      using la lb ts' by simp
    moreover have "toUpperCase ?k = upper a @ 0x20 # upper b"
      using a(2) b(2) by (rule toUpperCase_pair)
    ultimately show ?thesis using True w
      by (simp del: length_append drop_append)
  next
    case False
    with match_word_pair [OF a b wf p] have "\<not> match_word ?k p (c # w' @ flat ts)"
      using w by simp
    moreover have "replace_word ?k (Some c) (w' @ flat ts) =
        w' @ replace_word ?k (if w' = [] then Some c else Some (last w')) (flat ts)"
      using ww w by (intro skip_run) (simp_all add: is_word_opt_def)
    ultimately show ?thesis using False w by simp
  qed
qed

lemma step2_correct:
  assumes a: "a \<noteq> []" "list_all is_word a" and b: "b \<noteq> []" "list_all is_word b"
  shows "wf ts \<Longrightarrow> \<not> is_word_opt p \<or> \<not> starts_word ts \<Longrightarrow>
         replace_word (a @ 0x20 # b) p (flat ts) = flat (step2 a b ts)"
proof (induction "length ts" arbitrary: ts p rule: less_induct)
  case less
  let ?k = "a @ 0x20 # b"
  show ?case
  proof (cases ts rule: flat.cases)
    case 1
    then show ?thesis by simp
  next
    case (2 w ts')
    with less(2,3) have p: "\<not> is_word_opt p" and wfw: "wf (Word w # ts')"
      and ts: "\<not> starts_word ts'" "wf ts'" by simp_all
    note rw = replace_word_pair [OF a b wfw p]
    show ?thesis
    proof (cases "pair_at a b w ts'")
      case True
      then obtain w2 ts2 where ts2: "ts' = Sep (0x20) # Word w2 # ts2"
        unfolding pair_at_iff by blast
      from ts ts2 have wf': "wf (drop 2 ts')" "\<not> starts_word (drop 2 ts')" by simp_all
      have "replace_word ?k (char_at (flat ts') (length b)) (flat (drop 2 ts')) =
            flat (step2 a b (drop 2 ts'))"
        using less(1) [of "drop 2 ts'"] wf' 2 by simp
      with rw True 2 show ?thesis by simp
    next
      case False
      have "replace_word ?k (Some (last w)) (flat ts') = flat (step2 a b ts')"
        using less(1) [of ts'] ts 2 by simp
      with rw False 2 show ?thesis by simp
    qed
  next
    case (3 c ts')
    from a have hk: "is_word (hd ?k)" by (cases a) simp_all
    from 3 less(2) have c: "\<not> is_word c" and ts: "wf ts'" by simp_all
    have "replace_word ?k (Some c) (flat ts') = flat (step2 a b ts')"
      using less(1) [of ts'] ts c 3 by (simp add: is_word_opt_def)
    with skip_sep [OF _ hk c] 3 show ?thesis by simp
  qed
qed

subsection \<open>The replacements, one after the other\<close>

text \<open>
  A replacement for a further keyword, applied to a text in which the keywords \<open>S\<close>
  and \<open>P\<close> are marked already, marks that keyword too; a keyword of two words whose
  second word is marked already matches nowhere, because a line feed stands before
  that word.
\<close>

lemma pairs_at_iff:
  "pairs_at P w ts =
     (\<exists>(a, b) \<in> set P. \<exists>w2 ts'. ts = Sep (0x20) # Word w2 # ts' \<and>
        upper w = upper a \<and> upper w2 = upper b)"
  unfolding pairs_at_def list_ex_iff pair_at_iff by auto

lemma pairs_at_Cons: "pairs_at ((a, b) # P) w ts = (pair_at a b w ts \<or> pairs_at P w ts)"
  by (simp add: pairs_at_def)

lemma pairs_at_Nil: "pairs_at [] w ts = False"
  by (simp add: pairs_at_def)

lemma mark_Nil: "mark [] [] ts = ts"
  by (induction ts rule: flat.induct) (simp_all add: pairs_at_Nil)

lemma mark_not_starts_word: "\<not> starts_word ts \<Longrightarrow> \<not> starts_word (mark S P ts)"
  by (cases ts rule: flat.cases) simp_all

lemma wf_mark: "wf ts \<Longrightarrow> wf (mark S P ts)"
proof (induction S P ts rule: mark.induct)
  case (1 S P)
  then show ?case by simp
next
  case (2 S P c ts)
  then show ?case by simp
next
  case (3 S P w ts)
  from 3(4) have w: "w \<noteq> []" "list_all is_word w" and ts: "\<not> starts_word ts" "wf ts"
    by simp_all
  from w have uw: "upper w \<noteq> []" "list_all is_word (upper w)"
    by (simp_all add: upper_Nil upper_all_word)
  show ?case
  proof (cases "pairs_at P w ts")
    case True
    then obtain w2 ts' where ts': "ts = Sep (0x20) # Word w2 # ts'"
      unfolding pairs_at_iff by blast
    with ts have "w2 \<noteq> []" "list_all is_word w2" "\<not> starts_word ts'" "wf ts'" by simp_all
    moreover from this 3(1) [OF True] ts' have "wf (mark S P ts')" by simp
    ultimately show ?thesis
      using True uw ts' by (simp add: upper_Nil upper_all_word sp_not_word mark_not_starts_word
          is_word_def asc_def)
  next
    case False
    with 3(2,3) ts have "wf (mark S P ts)" by (cases "upper w \<in> set S") simp_all
    with False uw w ts show ?thesis
      by (simp add: mark_not_starts_word is_word_def asc_def)
  qed
qed

lemma upper_pairsD:
  "upper_pairs P \<Longrightarrow> (a, b) \<in> set P \<Longrightarrow> upper a = a \<and> upper b = b"
  by (auto simp: upper_pairs_def list_all_iff)

lemma pairs_at_second:
  assumes "pairs_at P w ts" "upper_pairs P"
  shows "\<exists>a b w2 ts'. (a, b) \<in> set P \<and> ts = Sep (0x20) # Word w2 # ts' \<and>
           upper w = a \<and> upper w2 = b \<and> second_upper ts = b \<and> drop 2 ts = ts'"
proof -
  from assms(1) obtain a b w2 ts' where ab: "(a, b) \<in> set P"
    and ts: "ts = Sep (0x20) # Word w2 # ts'"
    and u: "upper w = upper a" "upper w2 = upper b"
    unfolding pairs_at_iff by blast
  from upper_pairsD [OF assms(2) ab] u ts ab show ?thesis by auto
qed

lemma step1_mark:
  assumes k: "upper k = k" "k \<notin> set S" "k \<notin> fst ` set P" "k \<notin> snd ` set P"
    and P: "upper_pairs P"
  shows "step1 k (mark S P ts) = mark (k # S) P ts"
proof (induction "length ts" arbitrary: ts rule: less_induct)
  case less
  show ?case
  proof (cases ts rule: flat.cases)
    case 1
    then show ?thesis by simp
  next
    case (2 w ts')
    show ?thesis
    proof (cases "pairs_at P w ts'")
      case True
      from pairs_at_second [OF True P] obtain a b w2 ts2 where ab: "(a, b) \<in> set P"
        and ts2: "ts' = Sep (0x20) # Word w2 # ts2"
        and u: "upper w = a" "upper w2 = b" "second_upper ts' = b" "drop 2 ts' = ts2"
        by blast
      from ab k(3,4) have ne: "a \<noteq> k" "b \<noteq> k" by force+
      from upper_pairsD [OF P ab] have ua: "upper a = a" "upper b = b" by simp_all
      have "step1 k (mark S P ts2) = mark (k # S) P ts2"
        using less [of ts2] 2 ts2 by simp
      with True u ne ua k(1) 2 show ?thesis by simp
    next
      case False
      have ih: "step1 k (mark S P ts') = mark (k # S) P ts'"
        using less [of ts'] 2 by simp
      show ?thesis
      proof (cases "upper w \<in> set S")
        case True
        with k(2) have "upper w \<noteq> k" by auto
        with True False ih k(1) 2 show ?thesis by (simp add: upper_idem)
      next
        case nS: False
        with False ih k(1) 2 show ?thesis by (auto simp: upper_idem)
      qed
    qed
  next
    case (3 c ts')
    with less [of ts'] show ?thesis by simp
  qed
qed

lemma pair_at_mark:
  assumes b: "upper b = b" "b \<notin> set S" "b \<notin> fst ` set P" and P: "upper_pairs P"
  shows "pair_at a b w (mark S P ts) = pair_at a b w ts"
proof (cases ts rule: flat.cases)
  case 1
  then show ?thesis by simp
next
  case (2 w' ts')
  then show ?thesis
    by (cases "pairs_at P w' ts'"; cases "upper w' \<in> set S") simp_all
next
  case (3 c ts')
  show ?thesis
  proof (cases ts' rule: flat.cases)
    case 1
    with 3 show ?thesis by simp
  next
    case (2 w2 ts2)
    show ?thesis
    proof (cases "pairs_at P w2 ts2")
      case True
      from pairs_at_second [OF True P] obtain a' b' where "(a', b') \<in> set P" "upper w2 = a'"
        by blast
      with b(3) have "upper w2 \<noteq> b" by force
      with True 2 3 b(1) show ?thesis by simp
    next
      case False
      show ?thesis
      proof (cases "upper w2 \<in> set S")
        case True
        with b(2) have "upper w2 \<noteq> b" by auto
        with True False 2 3 b(1) show ?thesis by simp
      next
        case nS: False
        with False 2 3 show ?thesis by simp
      qed
    qed
  next
    case (3 c' ts2)
    with \<open>ts = Sep c # ts'\<close> show ?thesis by simp
  qed
qed

lemma drop2_mark:
  assumes "pair_at a b w ts" and b: "upper b = b" "b \<notin> set S" "b \<notin> fst ` set P"
    and P: "upper_pairs P"
  shows "drop 2 (mark S P ts) = mark S P (drop 2 ts)"
proof -
  from assms(1) obtain w2 ts' where ts: "ts = Sep (0x20) # Word w2 # ts'"
    and u: "upper w2 = upper b"
    unfolding pair_at_iff by blast
  from u b(1,2) have nS: "upper w2 \<notin> set S" by simp
  have "\<not> pairs_at P w2 ts'"
  proof
    assume "pairs_at P w2 ts'"
    from pairs_at_second [OF this P] obtain a' b' where "(a', b') \<in> set P" "upper w2 = a'"
      by blast
    with b(3) u b(1) show False by force
  qed
  with nS ts show ?thesis by simp
qed

lemma step2_mark:
  assumes a: "upper a = a" "a \<notin> set S" "a \<notin> fst ` set P" "a \<notin> snd ` set P"
    and b: "upper b = b" "b \<notin> set S" "b \<notin> fst ` set P"
    and P: "upper_pairs P"
  shows "step2 a b (mark S P ts) = mark S ((a, b) # P) ts"
proof (induction "length ts" arbitrary: ts rule: less_induct)
  case less
  show ?case
  proof (cases ts rule: flat.cases)
    case 1
    then show ?thesis by simp
  next
    case (2 w ts')
    show ?thesis
    proof (cases "pairs_at P w ts'")
      case True
      from pairs_at_second [OF True P] obtain a' b' w2 ts2 where ab: "(a', b') \<in> set P"
        and ts2: "ts' = Sep (0x20) # Word w2 # ts2"
        and u: "upper w = a'" "upper w2 = b'" "second_upper ts' = b'"
               "drop 2 ts' = ts2"
        by blast
      from ab a(3,4) have ne: "a' \<noteq> a" "b' \<noteq> a" by force+
      from upper_pairsD [OF P ab] have ua: "upper a' = a'" "upper b' = b'"
        by simp_all
      have ih: "step2 a b (mark S P ts2) = mark S ((a, b) # P) ts2"
        using less [of ts2] 2 ts2 by simp
      have "mark S P ts = Sep (0x0A) # Word a' # Sep (0x20) # Word b' # mark S P ts2"
        using True u 2 by simp
      moreover have "mark S ((a, b) # P) ts =
          Sep (0x0A) # Word a' # Sep (0x20) # Word b' # mark S ((a, b) # P) ts2"
        using True u 2 by (simp add: pairs_at_Cons)
      moreover have "\<not> pair_at a b a' (Sep (0x20) # Word b' # mark S P ts2)"
        using ne ua a(1) by simp
      moreover have "\<not> pair_at a b b' (mark S P ts2)"
        using ne ua a(1) by (simp add: pair_at_iff)
      ultimately show ?thesis using ih by simp
    next
      case nP: False
      have ih: "step2 a b (mark S P ts') = mark S ((a, b) # P) ts'"
        using less [of ts'] 2 by simp
      note pm = pair_at_mark [OF b P, of a _ ts']
      show ?thesis
      proof (cases "upper w \<in> set S")
        case True
        with a(2) have "upper w \<noteq> a" by auto
        then have "\<not> pair_at a b w ts'" "\<not> pair_at a b (upper w) ts'"
          using a(1) by (simp_all add: pair_at_iff upper_idem)
        with True nP ih pm 2 show ?thesis by (simp add: pairs_at_Cons)
      next
        case nS: False
        show ?thesis
        proof (cases "pair_at a b w ts'")
          case True
          then obtain w2 ts2 where ts2: "ts' = Sep (0x20) # Word w2 # ts2"
            and u: "upper w = upper a" "upper w2 = upper b"
            unfolding pair_at_iff by blast
          have ih2: "step2 a b (mark S P ts2) = mark S ((a, b) # P) ts2"
            using less [of ts2] 2 ts2 by simp
          from drop2_mark [OF True b P] ts2 have "drop 2 (mark S P ts') = mark S P ts2" by simp
          with True nS nP ih2 pm u ts2 a(1) b(1) 2 show ?thesis
            by (simp add: pairs_at_Cons)
        next
          case False
          with nS nP ih pm 2 show ?thesis by (simp add: pairs_at_Cons)
        qed
      qed
    qed
  next
    case (3 c ts')
    with less [of ts'] show ?thesis by simp
  qed
qed

lemma no_pair_at_mark:
  assumes b: "upper b = b" "b \<in> set S" and P: "upper_pairs P"
  shows "\<not> pair_at a b w (mark S P ts)"
proof (cases ts rule: flat.cases)
  case 1
  then show ?thesis by simp
next
  case (2 w' ts')
  then show ?thesis
    by (cases "pairs_at P w' ts'"; cases "upper w' \<in> set S") simp_all
next
  case (3 c ts')
  show ?thesis
  proof (cases ts' rule: flat.cases)
    case 1
    with 3 show ?thesis by simp
  next
    case (2 w2 ts2)
    show ?thesis
    proof (cases "pairs_at P w2 ts2")
      case True
      with 2 3 show ?thesis by simp
    next
      case False
      show ?thesis
      proof (cases "upper w2 \<in> set S")
        case True
        with False 2 3 show ?thesis by simp
      next
        case nS: False
        with b have "upper w2 \<noteq> upper b" by auto
        with nS False 2 3 show ?thesis by simp
      qed
    qed
  next
    case (3 c' ts2)
    with \<open>ts = Sep c # ts'\<close> show ?thesis by simp
  qed
qed

lemma step2_mark_none:
  assumes b: "upper b = b" "b \<in> set S" "b \<notin> snd ` set P" and P: "upper_pairs P"
  shows "step2 a b (mark S P ts) = mark S P ts"
proof (induction "length ts" arbitrary: ts rule: less_induct)
  case less
  note np = no_pair_at_mark [OF b(1,2) P]
  show ?case
  proof (cases ts rule: flat.cases)
    case 1
    then show ?thesis by simp
  next
    case (2 w ts')
    show ?thesis
    proof (cases "pairs_at P w ts'")
      case True
      from pairs_at_second [OF True P] obtain a' b' w2 ts2 where ab: "(a', b') \<in> set P"
        and ts2: "ts' = Sep (0x20) # Word w2 # ts2"
        and u: "upper w = a'" "upper w2 = b'" "second_upper ts' = b'"
               "drop 2 ts' = ts2"
        by blast
      from ab b(3) have ne: "b' \<noteq> b" by force
      from upper_pairsD [OF P ab] have ua: "upper a' = a'" "upper b' = b'"
        by simp_all
      have ih: "step2 a b (mark S P ts2) = mark S P ts2"
        using less [of ts2] 2 ts2 by simp
      have "mark S P ts = Sep (0x0A) # Word a' # Sep (0x20) # Word b' # mark S P ts2"
        using True u 2 by simp
      moreover have "\<not> pair_at a b a' (Sep (0x20) # Word b' # mark S P ts2)"
        using ne ua b(1) by simp
      ultimately show ?thesis using ih np [of a b' ts2] by simp
    next
      case nP: False
      have ih: "step2 a b (mark S P ts') = mark S P ts'"
        using less [of ts'] 2 by simp
      with nP 2 np [of a _ ts'] show ?thesis by simp
    qed
  next
    case (3 c ts')
    with less [of ts'] show ?thesis by simp
  qed
qed

lemma kw_word:
  "list_all is_word (asc ''SELECT'')"
  "list_all is_word (asc ''FROM'')"
  "list_all is_word (asc ''WHERE'')"
  "list_all is_word (asc ''JOIN'')"
  "list_all is_word (asc ''INNER'')"
  "list_all is_word (asc ''LEFT'')"
  "list_all is_word (asc ''RIGHT'')"
  "list_all is_word (asc ''GROUP'')"
  "list_all is_word (asc ''BY'')"
  "list_all is_word (asc ''HAVING'')"
  "list_all is_word (asc ''ORDER'')"
  "list_all is_word (asc ''LIMIT'')"
  "list_all is_word (asc ''OFFSET'')"
  "list_all is_word (asc ''INSERT'')"
  "list_all is_word (asc ''INTO'')"
  "list_all is_word (asc ''VALUES'')"
  "list_all is_word (asc ''UPDATE'')"
  "list_all is_word (asc ''SET'')"
  "list_all is_word (asc ''DELETE'')"
  by (simp_all add: is_word_def asc_def)

lemma kw_upper:
  "upper (asc ''SELECT'') = asc ''SELECT''"
  "upper (asc ''FROM'') = asc ''FROM''"
  "upper (asc ''WHERE'') = asc ''WHERE''"
  "upper (asc ''JOIN'') = asc ''JOIN''"
  "upper (asc ''INNER'') = asc ''INNER''"
  "upper (asc ''LEFT'') = asc ''LEFT''"
  "upper (asc ''RIGHT'') = asc ''RIGHT''"
  "upper (asc ''GROUP'') = asc ''GROUP''"
  "upper (asc ''BY'') = asc ''BY''"
  "upper (asc ''HAVING'') = asc ''HAVING''"
  "upper (asc ''ORDER'') = asc ''ORDER''"
  "upper (asc ''LIMIT'') = asc ''LIMIT''"
  "upper (asc ''OFFSET'') = asc ''OFFSET''"
  "upper (asc ''INSERT'') = asc ''INSERT''"
  "upper (asc ''INTO'') = asc ''INTO''"
  "upper (asc ''VALUES'') = asc ''VALUES''"
  "upper (asc ''UPDATE'') = asc ''UPDATE''"
  "upper (asc ''SET'') = asc ''SET''"
  "upper (asc ''DELETE'') = asc ''DELETE''"
  by (simp_all add: upper_def ascii_upper_def asc_def)

lemma replace_single:
  assumes "k \<noteq> []" "list_all is_word k" "upper k = k" "k \<notin> set S"
    "k \<notin> fst ` set P" "k \<notin> snd ` set P" "upper_pairs P" "wf ts"
  shows "replace_word k None (flat (mark S P ts)) = flat (mark (k # S) P ts)"
proof -
  have "replace_word k None (flat (mark S P ts)) = flat (step1 k (mark S P ts))"
    using assms(1,2) wf_mark [OF assms(8)] by (intro step1_correct) (simp_all add: is_word_opt_def)
  with step1_mark [OF assms(3-7)] show ?thesis by simp
qed

lemma replace_pair:
  assumes "a \<noteq> []" "list_all is_word a" "b \<noteq> []" "list_all is_word b"
    "upper a = a" "a \<notin> set S" "a \<notin> fst ` set P" "a \<notin> snd ` set P"
    "upper b = b" "b \<notin> set S" "b \<notin> fst ` set P" "upper_pairs P" "wf ts"
  shows "replace_word (a @ 0x20 # b) None (flat (mark S P ts)) =
         flat (mark S ((a, b) # P) ts)"
proof -
  have "replace_word (a @ 0x20 # b) None (flat (mark S P ts)) =
        flat (step2 a b (mark S P ts))"
    using assms(1-4) wf_mark [OF assms(13)]
    by (intro step2_correct) (simp_all add: is_word_opt_def)
  with step2_mark [OF assms(5-12)] show ?thesis by simp
qed

lemma replace_pair_none:
  assumes "a \<noteq> []" "list_all is_word a" "b \<noteq> []" "list_all is_word b"
    "upper b = b" "b \<in> set S" "b \<notin> snd ` set P" "upper_pairs P" "wf ts"
  shows "replace_word (a @ 0x20 # b) None (flat (mark S P ts)) = flat (mark S P ts)"
proof -
  have "replace_word (a @ 0x20 # b) None (flat (mark S P ts)) =
        flat (step2 a b (mark S P ts))"
    using assms(1-4) wf_mark [OF assms(9)]
    by (intro step2_correct) (simp_all add: is_word_opt_def)
  with step2_mark_none [OF assms(5-8)] show ?thesis by simp
qed

lemma format_closed:
  assumes "wf ts"
  shows "foldl (\<lambda>formatted keyword. replace_word keyword None formatted) (flat ts)
           formatKeywords =
         flat (mark single_keywords pair_keywords ts)"
proof -
  note kw = kw_word kw_upper upper_pairs_def

  have s1: "replace_word (asc ''SELECT'') None (flat (mark [] [] ts)) =
      flat (mark [asc ''SELECT''] [] ts)"
    using replace_single [of "asc ''SELECT''" "[]" "[]" ts] assms
    by (simp add: kw is_word_def asc_def upper_def ascii_upper_def)

  have s2: "replace_word (asc ''FROM'') None (flat (mark [asc ''SELECT''] [] ts)) =
      flat (mark [asc ''FROM'', asc ''SELECT''] [] ts)"
    using replace_single [of "asc ''FROM''" "[asc ''SELECT'']" "[]" ts] assms
    by (simp add: kw is_word_def asc_def upper_def ascii_upper_def)

  have s3: "replace_word (asc ''WHERE'') None (flat (mark [asc ''FROM'', asc ''SELECT''] [] ts)) =
      flat (mark [asc ''WHERE'', asc ''FROM'', asc ''SELECT''] [] ts)"
    using replace_single [of "asc ''WHERE''" "[asc ''FROM'', asc ''SELECT'']" "[]" ts] assms
    by (simp add: kw is_word_def asc_def upper_def ascii_upper_def)

  have s4: "replace_word (asc ''JOIN'') None (flat (mark [asc ''WHERE'', asc ''FROM'', asc ''SELECT''] [] ts)) =
      flat (mark [asc ''JOIN'', asc ''WHERE'', asc ''FROM'', asc ''SELECT''] [] ts)"
    using replace_single [of "asc ''JOIN''" "[asc ''WHERE'', asc ''FROM'', asc ''SELECT'']" "[]" ts] assms
    by (simp add: kw is_word_def asc_def upper_def ascii_upper_def)

  have s5: "replace_word (asc ''INNER JOIN'') None (flat (mark [asc ''JOIN'', asc ''WHERE'', asc ''FROM'', asc ''SELECT''] [] ts)) =
      flat (mark [asc ''JOIN'', asc ''WHERE'', asc ''FROM'', asc ''SELECT''] [] ts)"
    using replace_pair_none [of "asc ''INNER''" "asc ''JOIN''" "[asc ''JOIN'', asc ''WHERE'', asc ''FROM'', asc ''SELECT'']" "[]" ts] assms
    by (simp add: kw is_word_def asc_def upper_def ascii_upper_def)

  have s6: "replace_word (asc ''LEFT JOIN'') None (flat (mark [asc ''JOIN'', asc ''WHERE'', asc ''FROM'', asc ''SELECT''] [] ts)) =
      flat (mark [asc ''JOIN'', asc ''WHERE'', asc ''FROM'', asc ''SELECT''] [] ts)"
    using replace_pair_none [of "asc ''LEFT''" "asc ''JOIN''" "[asc ''JOIN'', asc ''WHERE'', asc ''FROM'', asc ''SELECT'']" "[]" ts] assms
    by (simp add: kw is_word_def asc_def upper_def ascii_upper_def)

  have s7: "replace_word (asc ''RIGHT JOIN'') None (flat (mark [asc ''JOIN'', asc ''WHERE'', asc ''FROM'', asc ''SELECT''] [] ts)) =
      flat (mark [asc ''JOIN'', asc ''WHERE'', asc ''FROM'', asc ''SELECT''] [] ts)"
    using replace_pair_none [of "asc ''RIGHT''" "asc ''JOIN''" "[asc ''JOIN'', asc ''WHERE'', asc ''FROM'', asc ''SELECT'']" "[]" ts] assms
    by (simp add: kw is_word_def asc_def upper_def ascii_upper_def)

  have s8: "replace_word (asc ''GROUP BY'') None (flat (mark [asc ''JOIN'', asc ''WHERE'', asc ''FROM'', asc ''SELECT''] [] ts)) =
      flat (mark [asc ''JOIN'', asc ''WHERE'', asc ''FROM'', asc ''SELECT''] [(asc ''GROUP'', asc ''BY'')] ts)"
    using replace_pair [of "asc ''GROUP''" "asc ''BY''" "[asc ''JOIN'', asc ''WHERE'', asc ''FROM'', asc ''SELECT'']" "[]" ts] assms
    by (simp add: kw is_word_def asc_def upper_def ascii_upper_def)

  have s9: "replace_word (asc ''HAVING'') None (flat (mark [asc ''JOIN'', asc ''WHERE'', asc ''FROM'', asc ''SELECT''] [(asc ''GROUP'', asc ''BY'')] ts)) =
      flat (mark [asc ''HAVING'', asc ''JOIN'', asc ''WHERE'', asc ''FROM'', asc ''SELECT''] [(asc ''GROUP'', asc ''BY'')] ts)"
    using replace_single [of "asc ''HAVING''" "[asc ''JOIN'', asc ''WHERE'', asc ''FROM'', asc ''SELECT'']" "[(asc ''GROUP'', asc ''BY'')]" ts] assms
    by (simp add: kw is_word_def asc_def upper_def ascii_upper_def)

  have s10: "replace_word (asc ''ORDER BY'') None (flat (mark [asc ''HAVING'', asc ''JOIN'', asc ''WHERE'', asc ''FROM'', asc ''SELECT''] [(asc ''GROUP'', asc ''BY'')] ts)) =
      flat (mark [asc ''HAVING'', asc ''JOIN'', asc ''WHERE'', asc ''FROM'', asc ''SELECT''] [(asc ''ORDER'', asc ''BY''), (asc ''GROUP'', asc ''BY'')] ts)"
    using replace_pair [of "asc ''ORDER''" "asc ''BY''" "[asc ''HAVING'', asc ''JOIN'', asc ''WHERE'', asc ''FROM'', asc ''SELECT'']" "[(asc ''GROUP'', asc ''BY'')]" ts] assms
    by (simp add: kw is_word_def asc_def upper_def ascii_upper_def)

  have s11: "replace_word (asc ''LIMIT'') None (flat (mark [asc ''HAVING'', asc ''JOIN'', asc ''WHERE'', asc ''FROM'', asc ''SELECT''] [(asc ''ORDER'', asc ''BY''), (asc ''GROUP'', asc ''BY'')] ts)) =
      flat (mark [asc ''LIMIT'', asc ''HAVING'', asc ''JOIN'', asc ''WHERE'', asc ''FROM'', asc ''SELECT''] [(asc ''ORDER'', asc ''BY''), (asc ''GROUP'', asc ''BY'')] ts)"
    using replace_single [of "asc ''LIMIT''" "[asc ''HAVING'', asc ''JOIN'', asc ''WHERE'', asc ''FROM'', asc ''SELECT'']" "[(asc ''ORDER'', asc ''BY''), (asc ''GROUP'', asc ''BY'')]" ts] assms
    by (simp add: kw is_word_def asc_def upper_def ascii_upper_def)

  have s12: "replace_word (asc ''OFFSET'') None (flat (mark [asc ''LIMIT'', asc ''HAVING'', asc ''JOIN'', asc ''WHERE'', asc ''FROM'', asc ''SELECT''] [(asc ''ORDER'', asc ''BY''), (asc ''GROUP'', asc ''BY'')] ts)) =
      flat (mark [asc ''OFFSET'', asc ''LIMIT'', asc ''HAVING'', asc ''JOIN'', asc ''WHERE'', asc ''FROM'', asc ''SELECT''] [(asc ''ORDER'', asc ''BY''), (asc ''GROUP'', asc ''BY'')] ts)"
    using replace_single [of "asc ''OFFSET''" "[asc ''LIMIT'', asc ''HAVING'', asc ''JOIN'', asc ''WHERE'', asc ''FROM'', asc ''SELECT'']" "[(asc ''ORDER'', asc ''BY''), (asc ''GROUP'', asc ''BY'')]" ts] assms
    by (simp add: kw is_word_def asc_def upper_def ascii_upper_def)

  have s13: "replace_word (asc ''INSERT INTO'') None (flat (mark [asc ''OFFSET'', asc ''LIMIT'', asc ''HAVING'', asc ''JOIN'', asc ''WHERE'', asc ''FROM'', asc ''SELECT''] [(asc ''ORDER'', asc ''BY''), (asc ''GROUP'', asc ''BY'')] ts)) =
      flat (mark [asc ''OFFSET'', asc ''LIMIT'', asc ''HAVING'', asc ''JOIN'', asc ''WHERE'', asc ''FROM'', asc ''SELECT''] [(asc ''INSERT'', asc ''INTO''), (asc ''ORDER'', asc ''BY''), (asc ''GROUP'', asc ''BY'')] ts)"
    using replace_pair [of "asc ''INSERT''" "asc ''INTO''" "[asc ''OFFSET'', asc ''LIMIT'', asc ''HAVING'', asc ''JOIN'', asc ''WHERE'', asc ''FROM'', asc ''SELECT'']" "[(asc ''ORDER'', asc ''BY''), (asc ''GROUP'', asc ''BY'')]" ts] assms
    by (simp add: kw is_word_def asc_def upper_def ascii_upper_def)

  have s14: "replace_word (asc ''VALUES'') None (flat (mark [asc ''OFFSET'', asc ''LIMIT'', asc ''HAVING'', asc ''JOIN'', asc ''WHERE'', asc ''FROM'', asc ''SELECT''] [(asc ''INSERT'', asc ''INTO''), (asc ''ORDER'', asc ''BY''), (asc ''GROUP'', asc ''BY'')] ts)) =
      flat (mark [asc ''VALUES'', asc ''OFFSET'', asc ''LIMIT'', asc ''HAVING'', asc ''JOIN'', asc ''WHERE'', asc ''FROM'', asc ''SELECT''] [(asc ''INSERT'', asc ''INTO''), (asc ''ORDER'', asc ''BY''), (asc ''GROUP'', asc ''BY'')] ts)"
    using replace_single [of "asc ''VALUES''" "[asc ''OFFSET'', asc ''LIMIT'', asc ''HAVING'', asc ''JOIN'', asc ''WHERE'', asc ''FROM'', asc ''SELECT'']" "[(asc ''INSERT'', asc ''INTO''), (asc ''ORDER'', asc ''BY''), (asc ''GROUP'', asc ''BY'')]" ts] assms
    by (simp add: kw is_word_def asc_def upper_def ascii_upper_def)

  have s15: "replace_word (asc ''UPDATE'') None (flat (mark [asc ''VALUES'', asc ''OFFSET'', asc ''LIMIT'', asc ''HAVING'', asc ''JOIN'', asc ''WHERE'', asc ''FROM'', asc ''SELECT''] [(asc ''INSERT'', asc ''INTO''), (asc ''ORDER'', asc ''BY''), (asc ''GROUP'', asc ''BY'')] ts)) =
      flat (mark [asc ''UPDATE'', asc ''VALUES'', asc ''OFFSET'', asc ''LIMIT'', asc ''HAVING'', asc ''JOIN'', asc ''WHERE'', asc ''FROM'', asc ''SELECT''] [(asc ''INSERT'', asc ''INTO''), (asc ''ORDER'', asc ''BY''), (asc ''GROUP'', asc ''BY'')] ts)"
    using replace_single [of "asc ''UPDATE''" "[asc ''VALUES'', asc ''OFFSET'', asc ''LIMIT'', asc ''HAVING'', asc ''JOIN'', asc ''WHERE'', asc ''FROM'', asc ''SELECT'']" "[(asc ''INSERT'', asc ''INTO''), (asc ''ORDER'', asc ''BY''), (asc ''GROUP'', asc ''BY'')]" ts] assms
    by (simp add: kw is_word_def asc_def upper_def ascii_upper_def)

  have s16: "replace_word (asc ''SET'') None (flat (mark [asc ''UPDATE'', asc ''VALUES'', asc ''OFFSET'', asc ''LIMIT'', asc ''HAVING'', asc ''JOIN'', asc ''WHERE'', asc ''FROM'', asc ''SELECT''] [(asc ''INSERT'', asc ''INTO''), (asc ''ORDER'', asc ''BY''), (asc ''GROUP'', asc ''BY'')] ts)) =
      flat (mark [asc ''SET'', asc ''UPDATE'', asc ''VALUES'', asc ''OFFSET'', asc ''LIMIT'', asc ''HAVING'', asc ''JOIN'', asc ''WHERE'', asc ''FROM'', asc ''SELECT''] [(asc ''INSERT'', asc ''INTO''), (asc ''ORDER'', asc ''BY''), (asc ''GROUP'', asc ''BY'')] ts)"
    using replace_single [of "asc ''SET''" "[asc ''UPDATE'', asc ''VALUES'', asc ''OFFSET'', asc ''LIMIT'', asc ''HAVING'', asc ''JOIN'', asc ''WHERE'', asc ''FROM'', asc ''SELECT'']" "[(asc ''INSERT'', asc ''INTO''), (asc ''ORDER'', asc ''BY''), (asc ''GROUP'', asc ''BY'')]" ts] assms
    by (simp add: kw is_word_def asc_def upper_def ascii_upper_def)

  have s17: "replace_word (asc ''DELETE FROM'') None (flat (mark [asc ''SET'', asc ''UPDATE'', asc ''VALUES'', asc ''OFFSET'', asc ''LIMIT'', asc ''HAVING'', asc ''JOIN'', asc ''WHERE'', asc ''FROM'', asc ''SELECT''] [(asc ''INSERT'', asc ''INTO''), (asc ''ORDER'', asc ''BY''), (asc ''GROUP'', asc ''BY'')] ts)) =
      flat (mark [asc ''SET'', asc ''UPDATE'', asc ''VALUES'', asc ''OFFSET'', asc ''LIMIT'', asc ''HAVING'', asc ''JOIN'', asc ''WHERE'', asc ''FROM'', asc ''SELECT''] [(asc ''INSERT'', asc ''INTO''), (asc ''ORDER'', asc ''BY''), (asc ''GROUP'', asc ''BY'')] ts)"
    using replace_pair_none [of "asc ''DELETE''" "asc ''FROM''" "[asc ''SET'', asc ''UPDATE'', asc ''VALUES'', asc ''OFFSET'', asc ''LIMIT'', asc ''HAVING'', asc ''JOIN'', asc ''WHERE'', asc ''FROM'', asc ''SELECT'']" "[(asc ''INSERT'', asc ''INTO''), (asc ''ORDER'', asc ''BY''), (asc ''GROUP'', asc ''BY'')]" ts] assms
    by (simp add: kw is_word_def asc_def upper_def ascii_upper_def)

  show ?thesis
    unfolding formatKeywords_def single_keywords_def pair_keywords_def foldl.simps
    by (simp only: s1 [unfolded mark_Nil] s2 s3 s4 s5 s6 s7 s8 s9 s10 s11 s12 s13 s14 s15 s16 s17)
qed

subsection \<open>Lines and chunks of a text\<close>

lemma split_nl_split_on: "split_nl s = split_on (\<lambda>c. c = 0x0A) s"
  by (induction s) simp_all

lemma join_nl_join_with: "join_nl ls = join_with (0x0A) ls"
  by (induction ls rule: join_nl.induct) simp_all

lemma split_on_not_Nil: "split_on P s \<noteq> []"
  by (induction s) (auto split: list.split)

lemma split_on_Cons:
  "split_on P (c # cs) =
     (if P c then [] # split_on P cs
      else (c # hd (split_on P cs)) # tl (split_on P cs))"
  using split_on_not_Nil [of P cs] by (cases "split_on P cs") auto

lemma split_on_append:
  "P c \<Longrightarrow> split_on P (x @ c # y) = split_on P x @ split_on P y"
proof (induction x)
  case Nil
  then show ?case by simp
next
  case (Cons a x)
  then show ?case
    using split_on_not_Nil [of P x] by (cases "split_on P x") (auto simp: split_on_Cons)
qed

lemma split_on_snoc:
  "\<not> P c \<Longrightarrow> split_on P (x @ [c]) = butlast (split_on P x) @ [last (split_on P x) @ [c]]"
proof (induction x)
  case Nil
  then show ?case by simp
next
  case (Cons a x)
  then show ?case
    using split_on_not_Nil [of P x]
    by (cases "split_on P x") (auto simp: split_on_Cons split_on_not_Nil)
qed

lemma chunks_Nil: "chunks [] = []"
  by (simp add: chunks_def)

lemma chunks_space: "is_space c \<Longrightarrow> chunks (x @ c # y) = chunks x @ chunks y"
  by (simp add: chunks_def split_on_append)

lemma chunks_space_Cons: "is_space c \<Longrightarrow> chunks (c # y) = chunks y"
  using chunks_space [of c "[]" y] by (simp add: chunks_Nil)

lemma chunks_space_snoc: "is_space c \<Longrightarrow> chunks (x @ [c]) = chunks x"
  using chunks_space [of c x "[]"] by (simp add: chunks_Nil)

lemma chunks_dropWhile: "chunks (dropWhile is_space s) = chunks s"
  by (induction s) (simp_all add: chunks_space_Cons)

lemma chunks_strip: "chunks (rev (dropWhile is_space (rev s))) = chunks s"
  by (induction s rule: rev_induct) (simp_all add: chunks_space_snoc)

lemma chunks_trim: "chunks (trim s) = chunks s"
  by (simp add: trim_def chunks_strip chunks_dropWhile)

lemma sp_space: "is_space (0x20)"
  by (simp add: is_space_def)

lemma nl_space: "is_space (0x0A)"
  by (simp add: is_space_def)

lemma chunks_collapse: "chunks (acc @ collapse_ws s) = chunks (acc @ s)"
proof (induction s arbitrary: acc rule: collapse_ws.induct)
  case 1
  then show ?case by simp
next
  case (2 c cs)
  show ?case
  proof (cases "is_space c")
    case True
    have "chunks (acc @ collapse_ws (c # cs)) =
          chunks acc @ chunks ([] @ collapse_ws (dropWhile is_space cs))"
      using True by (simp add: chunks_space [OF sp_space])
    also have "\<dots> = chunks acc @ chunks (dropWhile is_space cs)"
      using 2(1) [OF True, of "[]"] by simp
    also have "\<dots> = chunks (acc @ c # cs)"
      using True by (simp add: chunks_dropWhile chunks_space)
    finally show ?thesis .
  next
    case False
    with 2(2) [OF False, of "acc @ [c]"] show ?thesis by simp
  qed
qed

lemma chunks_join_nl: "chunks (join_nl ls) = concat (map chunks ls)"
  by (induction ls rule: join_nl.induct) (simp_all add: chunks_Nil chunks_space [OF nl_space])

lemma chunks_split_nl:
  "chunks (acc @ x) = chunks (acc @ hd (split_nl x)) @ concat (map chunks (tl (split_nl x)))"
proof (induction x arbitrary: acc)
  case Nil
  then show ?case by simp
next
  case (Cons c x)
  have ne: "split_nl x \<noteq> []" by (simp add: split_nl_split_on split_on_not_Nil)
  show ?case
  proof (cases "c = 0x0A")
    case True
    have "chunks x = concat (map chunks (split_nl x))"
      using Cons [of "[]"] ne by (cases "split_nl x") simp_all
    with True show ?thesis by (simp add: chunks_space [OF nl_space])
  next
    case False
    with Cons [of "acc @ [c]"] ne show ?thesis by (cases "split_nl x") simp_all
  qed
qed

lemma concat_chunks_filter:
  "concat (map chunks (filter (\<lambda>line. length line > 0) ls)) = concat (map chunks ls)"
  by (induction ls) (auto simp: chunks_Nil)

lemma chunks_post: "chunks (join_nl (lines_of x)) = chunks x"
proof -
  have ne: "split_nl x \<noteq> []" by (simp add: split_nl_split_on split_on_not_Nil)
  have "chunks (join_nl (lines_of x)) = concat (map chunks (split_nl x))"
    unfolding lines_of_def chunks_join_nl concat_chunks_filter
    by (simp add: comp_def chunks_trim)
  also have "\<dots> = chunks x"
    using chunks_split_nl [of "[]" x] ne by (cases "split_nl x") simp_all
  finally show ?thesis .
qed

lemma sparse_True: "sparse False t \<Longrightarrow> t = [] \<or> \<not> is_space (hd t) \<Longrightarrow> sparse True t"
  by (cases t) auto

lemma collapse_hd:
  "u = [] \<or> \<not> is_space (hd u) \<Longrightarrow> collapse_ws u = [] \<or> \<not> is_space (hd (collapse_ws u))"
  by (cases u) auto

lemma dropWhile_hd: "dropWhile P u = [] \<or> \<not> P (hd (dropWhile P u))"
  by (metis hd_dropWhile)

lemma sparse_collapse: "sparse False (collapse_ws s)"
proof (induction s rule: collapse_ws.induct)
  case 1
  then show ?case by simp
next
  case (2 c cs)
  show ?case
  proof (cases "is_space c")
    case True
    have "sparse True (collapse_ws (dropWhile is_space cs))"
      using 2(1) [OF True] collapse_hd [OF dropWhile_hd] by (rule sparse_True)
    with True show ?thesis by (simp add: sp_space)
  next
    case False
    with 2(2) show ?thesis by simp
  qed
qed

lemma sparse_dropWhile: "sparse b t \<Longrightarrow> sparse True (dropWhile is_space t)"
  by (induction t arbitrary: b) (auto split: if_splits)

lemma strip_Cons:
  "rev (dropWhile is_space (rev (c # u))) =
     (if is_space c \<and> rev (dropWhile is_space (rev u)) = [] then []
      else c # rev (dropWhile is_space (rev u)))"
proof (cases "\<forall>x \<in> set (rev u). is_space x")
  case True
  then have "dropWhile is_space (rev u @ [c]) = dropWhile is_space [c]"
    by (intro dropWhile_append2) simp
  moreover from True have "dropWhile is_space (rev u) = []" by simp
  ultimately show ?thesis by simp
next
  case False
  then obtain x where x: "x \<in> set (rev u)" "\<not> is_space x" by blast
  then have "dropWhile is_space (rev u @ [c]) = dropWhile is_space (rev u) @ [c]"
    by (rule dropWhile_append1)
  moreover from x have "dropWhile is_space (rev u) \<noteq> []" by (auto simp: dropWhile_eq_Nil_conv)
  ultimately show ?thesis by simp
qed

lemma strip_Nil_sparse:
  "sparse True u \<Longrightarrow> rev (dropWhile is_space (rev u)) = [] \<Longrightarrow> u = []"
proof (cases u)
  case Nil
  then show ?thesis by simp
next
  case (Cons c u')
  assume "sparse True u" "rev (dropWhile is_space (rev u)) = []"
  with Cons show ?thesis unfolding strip_Cons by (auto split: if_splits)
qed

lemma normal_strip: "sparse b u \<Longrightarrow> normal_at b (rev (dropWhile is_space (rev u)))"
proof (induction u arbitrary: b)
  case Nil
  then show ?case by simp
next
  case (Cons c u)
  show ?case
  proof (cases "is_space c")
    case True
    with Cons.prems have c: "c = 0x20" "\<not> b" and u: "sparse True u" by simp_all
    from Cons.IH [OF u] strip_Nil_sparse [OF u] True c show ?thesis
      unfolding strip_Cons by auto
  next
    case False
    with Cons.prems have "sparse False u" by simp
    from Cons.IH [OF this] False show ?thesis unfolding strip_Cons by simp
  qed
qed

lemma normal_pre: "normal_at True (trim (collapse_ws s))"
  unfolding trim_def
  by (intro normal_strip sparse_dropWhile) (rule sparse_collapse)

lemma join_with_Cons: "join_with d ((c # l) # ls) = c # join_with d (l # ls)"
  by (cases ls) simp_all

lemma join_split:
  "\<forall>c \<in> set s. is_space c \<longrightarrow> c = 0x20 \<Longrightarrow>
   join_with (0x20) (split_on is_space s) = s"
proof (induction s)
  case Nil
  then show ?case by simp
next
  case (Cons c s)
  obtain l ls where sp: "split_on is_space s = l # ls"
    using split_on_not_Nil [of is_space s] by (cases "split_on is_space s") auto
  with Cons show ?case by (auto simp: join_with_Cons)
qed

lemma normal_chars: "normal_at b s \<Longrightarrow> \<forall>c \<in> set s. is_space c \<longrightarrow> c = 0x20"
  by (induction s arbitrary: b) (auto split: if_splits)

lemma normal_pieces:
  "normal_at b s \<Longrightarrow>
   [] \<notin> set (tl (split_on is_space s)) \<and> (b \<longrightarrow> s \<noteq> [] \<longrightarrow> [] \<notin> set (split_on is_space s))"
proof (induction s arbitrary: b)
  case Nil
  then show ?case by simp
next
  case (Cons c s)
  obtain l ls where sp: "split_on is_space s = l # ls"
    using split_on_not_Nil [of is_space s] by (cases "split_on is_space s") auto
  show ?case
  proof (cases "is_space c")
    case True
    with Cons.prems have b: "\<not> b" and s: "s \<noteq> []" "normal_at True s" by simp_all
    from Cons.IH [OF s(2)] s(1) True b show ?thesis by simp
  next
    case False
    with Cons.prems have "normal_at False s" by simp
    from Cons.IH [OF this] False sp show ?thesis by simp
  qed
qed

lemma normal_join_chunks:
  assumes "normal_at True s"
  shows "join_with (0x20) (chunks s) = s"
proof (cases "s = []")
  case True
  then show ?thesis by (simp add: chunks_Nil)
next
  case False
  with normal_pieces [OF assms] have "[] \<notin> set (split_on is_space s)" by simp
  then have "chunks s = split_on is_space s"
    unfolding chunks_def by (auto simp: filter_id_conv)
  with join_split [OF normal_chars [OF assms]] show ?thesis by simp
qed

lemma pre_chunks: "trim (collapse_ws s) = join_with (0x20) (chunks s)"
proof -
  have "chunks (trim (collapse_ws s)) = chunks s"
    using chunks_collapse [of "[]" s] by (simp add: chunks_trim)
  with normal_join_chunks [OF normal_pre, of s] show ?thesis by simp
qed

lemma split_nl_append: "split_nl (x @ 0x0A # y) = split_nl x @ split_nl y"
  by (simp add: split_nl_split_on split_on_append)

lemma lines_nl: "lines_of (x @ 0x0A # y) = lines_of x @ lines_of y"
  by (simp add: lines_of_def split_nl_append)

lemma trim_snoc_space: "is_space c \<Longrightarrow> trim (l @ [c]) = trim l"
proof (cases "\<forall>x \<in> set l. is_space x")
  case True
  assume c: "is_space c"
  from True have l: "dropWhile is_space l = []" by simp
  from True c have "\<forall>x \<in> set (l @ [c]). is_space x" by simp
  then have e: "dropWhile is_space (l @ [c]) = []" unfolding dropWhile_eq_Nil_conv .
  show ?thesis unfolding trim_def e l ..
next
  case False
  assume c: "is_space c"
  from False obtain x where "x \<in> set l" "\<not> is_space x" by blast
  then have "dropWhile is_space (l @ [c]) = dropWhile is_space l @ [c]"
    by (rule dropWhile_append1)
  with c show ?thesis by (simp add: trim_def)
qed

lemma lines_sp: "lines_of (x @ [0x20]) = lines_of x"
proof -
  let ?ls = "split_nl x"
  have ne: "?ls \<noteq> []" by (simp add: split_nl_split_on split_on_not_Nil)
  have "split_nl (x @ [0x20]) = butlast ?ls @ [last ?ls @ [0x20]]"
    unfolding split_nl_split_on by (rule split_on_snoc) simp
  then have "lines_of (x @ [0x20]) =
      filter (\<lambda>line. length line > 0) (map trim (butlast ?ls) @ [trim (last ?ls)])"
    by (simp add: lines_of_def trim_snoc_space [OF sp_space])
  also have "map trim (butlast ?ls) @ [trim (last ?ls)] = map trim (butlast ?ls @ [last ?ls])"
    by simp
  also have "butlast ?ls @ [last ?ls] = ?ls" using ne by simp
  finally show ?thesis by (simp add: lines_of_def)
qed

subsection \<open>Formatting a formatted text\<close>

lemma mark_with_nl: "mark_with (\<lambda>b. [Sep (0x0A)]) S P b ts = mark S P ts"
proof (induction "length ts" arbitrary: ts b rule: less_induct)
  case less
  show ?case
  proof (cases ts rule: flat.cases)
    case 1
    then show ?thesis by simp
  next
    case (2 w ts')
    have "mark_with (\<lambda>b. [Sep (0x0A)]) S P False ts' = mark S P ts'"
      "mark_with (\<lambda>b. [Sep (0x0A)]) S P False (drop 2 ts') = mark S P (drop 2 ts')"
      using less [of ts'] less [of "drop 2 ts'"] 2 by simp_all
    with 2 show ?thesis by simp
  next
    case (3 c ts')
    with less [of ts'] show ?thesis by simp
  qed
qed

lemma mark_with_not_starts_word:
  "\<not> starts_word ts \<Longrightarrow> \<not> starts_word (mark_with e S P b ts)"
  by (cases ts rule: flat.cases) simp_all

lemma wf_spaced: "wf ts \<Longrightarrow> wf (mark_with spaced S P b ts)"
proof (induction "length ts" arbitrary: ts b rule: less_induct)
  case less
  show ?case
  proof (cases ts rule: flat.cases)
    case 1
    then show ?thesis by simp
  next
    case (2 w ts')
    with less(2) have w: "w \<noteq> []" "list_all is_word w" and ts: "\<not> starts_word ts'" "wf ts'"
      by simp_all
    from w have uw: "upper w \<noteq> []" "list_all is_word (upper w)"
      by (simp_all add: upper_Nil upper_all_word)
    have sp: "wf (spaced b @ us) = wf us" for us
      by (simp add: spaced_def sp_not_word)
    show ?thesis
    proof (cases "pairs_at P w ts'")
      case True
      then obtain w2 ts2 where ts2: "ts' = Sep (0x20) # Word w2 # ts2"
        unfolding pairs_at_iff by blast
      with ts have w2: "w2 \<noteq> []" "list_all is_word w2" "\<not> starts_word ts2" "wf ts2"
        by simp_all
      have "wf (mark_with spaced S P False ts2)" using less(1) [of ts2] w2 2 ts2 by simp
      with True uw w2 ts2 2 show ?thesis
        by (simp add: sp upper_Nil upper_all_word sp_not_word mark_with_not_starts_word)
    next
      case False
      have "wf (mark_with spaced S P False ts')" using less(1) [of ts'] ts 2 by simp
      with False uw w ts 2 show ?thesis
        by (simp add: sp mark_with_not_starts_word)
    qed
  next
    case (3 c ts')
    with less(1) [of ts'] less(2) show ?thesis by simp
  qed
qed

lemma pair_at_spaced:
  assumes "\<not> starts_word ts"
  shows "pair_at a b w (mark_with spaced S P b0 ts) = pair_at a b w ts"
proof (cases ts rule: flat.cases)
  case 1
  then show ?thesis by simp
next
  case (2 w' ts')
  with assms show ?thesis by simp
next
  case (3 c ts')
  show ?thesis
  proof (cases ts' rule: flat.cases)
    case 1
    with 3 show ?thesis by simp
  next
    case (2 w2 ts2)
    with 3 show ?thesis by (simp add: spaced_def upper_idem)
  next
    case (3 c' ts2)
    with \<open>ts = Sep c # ts'\<close> show ?thesis by simp
  qed
qed

lemma pairs_at_spaced:
  "\<not> starts_word ts \<Longrightarrow> pairs_at P w (mark_with spaced S P b0 ts) = pairs_at P w ts"
  unfolding pairs_at_def list_ex_iff by (simp add: pair_at_spaced)

lemma pairs_at_upper: "pairs_at P (upper w) ts = pairs_at P w ts"
  unfolding pairs_at_iff by (simp add: upper_idem)

lemma mark_spaced:
  assumes P: "upper_pairs P"
  shows "wf ts \<Longrightarrow>
    mark S P (mark_with spaced S P b ts) =
    mark_with (\<lambda>b. spaced b @ [Sep (0x0A)]) S P b ts"
proof (induction "length ts" arbitrary: ts b rule: less_induct)
  case less
  have sp: "mark S P (spaced b @ us) = spaced b @ mark S P us" for us
    by (simp add: spaced_def)
  show ?case
  proof (cases ts rule: flat.cases)
    case 1
    then show ?thesis by simp
  next
    case (2 w ts')
    with less(2) have ts: "\<not> starts_word ts'" "wf ts'" by simp_all
    show ?thesis
    proof (cases "pairs_at P w ts'")
      case True
      from pairs_at_second [OF True P] obtain a' b' w2 ts2 where ab: "(a', b') \<in> set P"
        and ts2: "ts' = Sep (0x20) # Word w2 # ts2"
        and u: "upper w = a'" "upper w2 = b'" "second_upper ts' = b'"
               "drop 2 ts' = ts2"
        by blast
      from upper_pairsD [OF P ab] have ua: "upper a' = a'" "upper b' = b'"
        by simp_all
      from ts ts2 have "wf ts2" by simp
      then have ih: "mark S P (mark_with spaced S P False ts2) =
          mark_with (\<lambda>b. spaced b @ [Sep (0x0A)]) S P False ts2"
        using less(1) [of ts2] 2 ts2 by simp
      have "pairs_at P a' (Sep (0x20) # Word b' # mark_with spaced S P False ts2)"
        unfolding pairs_at_iff using ab ua by (intro bexI [of _ "(a', b')"]) auto
      with True u ua ih 2 show ?thesis by (simp add: sp)
    next
      case False
      have ih: "mark S P (mark_with spaced S P False ts') =
          mark_with (\<lambda>b. spaced b @ [Sep (0x0A)]) S P False ts'"
        using less(1) [of ts'] ts 2 by simp
      have np: "\<not> pairs_at P w (mark_with spaced S P False ts')"
        "\<not> pairs_at P (upper w) (mark_with spaced S P False ts')"
        using False ts by (simp_all add: pairs_at_spaced pairs_at_upper)
      with False ih 2 show ?thesis by (simp add: sp upper_idem)
    qed
  next
    case (3 c ts')
    with less(1) [of ts'] less(2) show ?thesis by simp
  qed
qed

lemma lines_spaced:
  "lines_of (acc @ flat (mark_with (\<lambda>b. spaced b @ [Sep (0x0A)]) S P b ts)) =
   lines_of (acc @ flat (mark S P ts))"
proof (induction "length ts" arbitrary: ts b acc rule: less_induct)
  case less
  let ?E = "mark_with (\<lambda>b. spaced b @ [Sep (0x0A)]) S P"
  have sp: "lines_of (acc @ flat (spaced b @ Sep (0x0A) # us)) =
            lines_of acc @ lines_of (flat us)" for us
    using lines_nl [of "acc @ [0x20]" "flat us"] lines_nl [of acc "flat us"]
    by (simp add: spaced_def lines_sp)
  show ?case
  proof (cases ts rule: flat.cases)
    case 1
    then show ?thesis by simp
  next
    case (2 w ts')
    show ?thesis
    proof (cases "pairs_at P w ts'")
      case True
      let ?h = "upper w @ 0x20 # second_upper ts'"
      have ih: "lines_of (?h @ flat (?E False (drop 2 ts'))) =
                lines_of (?h @ flat (mark S P (drop 2 ts')))"
        using less [of "drop 2 ts'" ?h False] 2 by simp
      have "lines_of (acc @ flat (?E b ts)) = lines_of acc @ lines_of (?h @ flat (?E False (drop 2 ts')))"
        using True 2 sp [of "Word (upper w) # Sep (0x20) # Word (second_upper ts') #
          ?E False (drop 2 ts')"] by simp
      moreover have "lines_of (acc @ flat (mark S P ts)) =
          lines_of acc @ lines_of (?h @ flat (mark S P (drop 2 ts')))"
        using True 2 lines_nl [of acc "?h @ flat (mark S P (drop 2 ts'))"] by simp
      ultimately show ?thesis using ih by simp
    next
      case nP: False
      show ?thesis
      proof (cases "upper w \<in> set S")
        case True
        let ?h = "upper w"
        have ih: "lines_of (?h @ flat (?E False ts')) = lines_of (?h @ flat (mark S P ts'))"
          using less [of ts' ?h False] 2 by simp
        have "lines_of (acc @ flat (?E b ts)) = lines_of acc @ lines_of (?h @ flat (?E False ts'))"
          using True nP 2 sp [of "Word (upper w) # ?E False ts'"] by simp
        moreover have "lines_of (acc @ flat (mark S P ts)) =
            lines_of acc @ lines_of (?h @ flat (mark S P ts'))"
          using True nP 2 lines_nl [of acc "?h @ flat (mark S P ts')"] by simp
        ultimately show ?thesis using ih by simp
      next
        case False
        with nP 2 less [of ts' "acc @ w" False] show ?thesis by simp
      qed
    qed
  next
    case (3 c ts')
    with less [of ts' "acc @ [c]"] show ?thesis by simp
  qed
qed

lemma chunks_after_space:
  assumes "acc = [] \<or> is_space (last acc)"
  shows "chunks (acc @ y) = chunks acc @ chunks y"
proof (cases acc rule: rev_cases)
  case Nil
  then show ?thesis by (simp add: chunks_Nil)
next
  case (snoc acc0 c)
  with assms have c: "is_space c" by simp
  from snoc show ?thesis
    using chunks_space [OF c, of acc0 y] chunks_space_snoc [OF c, of acc0] by simp
qed

lemma chunks_spaced:
  "b \<longrightarrow> acc = [] \<or> is_space (last acc) \<Longrightarrow>
   chunks (acc @ flat (mark_with spaced S P b ts)) = chunks (acc @ flat (mark S P ts))"
proof (induction "length ts" arbitrary: ts b acc rule: less_induct)
  case less
  let ?M = "mark_with spaced S P"
  have sp: "chunks (acc @ flat (spaced b @ us)) = chunks acc @ chunks (flat us)" for us
  proof (cases b)
    case True
    with less(2) chunks_after_space [of acc "flat us"] show ?thesis by (simp add: spaced_def)
  next
    case False
    with chunks_space [OF sp_space, of acc "flat us"] show ?thesis by (simp add: spaced_def)
  qed
  have nl: "chunks (acc @ 0x0A # y) = chunks acc @ chunks y" for y
    by (rule chunks_space [OF nl_space])
  show ?case
  proof (cases ts rule: flat.cases)
    case 1
    then show ?thesis by simp
  next
    case (2 w ts')
    show ?thesis
    proof (cases "pairs_at P w ts'")
      case True
      let ?h = "upper w @ 0x20 # second_upper ts'"
      have ih: "chunks (?h @ flat (?M False (drop 2 ts'))) =
                chunks (?h @ flat (mark S P (drop 2 ts')))"
        using less(1) [of "drop 2 ts'" False ?h] 2 by simp
      have "chunks (acc @ flat (?M b ts)) = chunks acc @ chunks (?h @ flat (?M False (drop 2 ts')))"
        using True 2 sp [of "Word (upper w) # Sep (0x20) # Word (second_upper ts') #
          ?M False (drop 2 ts')"] by simp
      moreover have "chunks (acc @ flat (mark S P ts)) =
          chunks acc @ chunks (?h @ flat (mark S P (drop 2 ts')))"
        using True 2 nl [of "?h @ flat (mark S P (drop 2 ts'))"] by simp
      ultimately show ?thesis using ih by simp
    next
      case nP: False
      show ?thesis
      proof (cases "upper w \<in> set S")
        case True
        let ?h = "upper w"
        have ih: "chunks (?h @ flat (?M False ts')) = chunks (?h @ flat (mark S P ts'))"
          using less(1) [of ts' False ?h] 2 by simp
        have "chunks (acc @ flat (?M b ts)) = chunks acc @ chunks (?h @ flat (?M False ts'))"
          using True nP 2 sp [of "Word (upper w) # ?M False ts'"] by simp
        moreover have "chunks (acc @ flat (mark S P ts)) =
            chunks acc @ chunks (?h @ flat (mark S P ts'))"
          using True nP 2 nl [of "?h @ flat (mark S P ts')"] by simp
        ultimately show ?thesis using ih by simp
      next
        case False
        with nP 2 less(1) [of ts' False "acc @ w"] show ?thesis by simp
      qed
    qed
  next
    case (3 c ts')
    have "chunks ((acc @ [c]) @ flat (?M (c = 0x20) ts')) =
          chunks ((acc @ [c]) @ flat (mark S P ts'))"
      using less(1) [of ts' "c = 0x20" "acc @ [c]"] 3 by (simp add: sp_space)
    with 3 show ?thesis by simp
  qed
qed

lemma word_not_space: "is_word c \<Longrightarrow> \<not> is_space c"
  using space_not_word by blast

lemma normal_word:
  "w \<noteq> [] \<Longrightarrow> list_all is_word w \<Longrightarrow> normal_at b (w @ r) = normal_at False r"
proof (induction w arbitrary: b)
  case Nil
  then show ?case by simp
next
  case (Cons c w)
  then show ?case by (cases w) (simp_all add: word_not_space)
qed

lemma flat_Nil: "wf ts \<Longrightarrow> (flat ts = []) = (ts = [])"
  by (cases ts rule: flat.cases) simp_all

lemma mark_with_Nil: "(mark_with spaced S P b ts = []) = (ts = [])"
  by (cases ts rule: flat.cases) simp_all

lemma normal_spaced:
  "wf ts \<Longrightarrow> normal_at b (flat ts) \<Longrightarrow> normal_at b (flat (mark_with spaced S P b ts))"
proof (induction "length ts" arbitrary: ts b rule: less_induct)
  case less
  let ?M = "mark_with spaced S P"
  show ?case
  proof (cases ts rule: flat.cases)
    case 1
    then show ?thesis by simp
  next
    case (2 w ts')
    with less(2) have w: "w \<noteq> []" "list_all is_word w" and ts: "\<not> starts_word ts'" "wf ts'"
      by simp_all
    from w have uw: "upper w \<noteq> []" "list_all is_word (upper w)"
      by (simp_all add: upper_Nil upper_all_word)
    from less(3) 2 have n: "normal_at False (flat ts')" by (simp add: normal_word [OF w])
    have sp: "normal_at b (flat (spaced b @ Word (upper w) # us)) = normal_at False (flat us)"
      for us
      using normal_word [OF uw] uw(1) by (cases b) (simp_all add: spaced_def sp_space)
    show ?thesis
    proof (cases "pairs_at P w ts'")
      case True
      then obtain w2 ts2 where ts2: "ts' = Sep (0x20) # Word w2 # ts2"
        unfolding pairs_at_iff by blast
      with ts have w2: "w2 \<noteq> []" "list_all is_word w2" "wf ts2" by simp_all
      from w2 have uw2: "upper w2 \<noteq> []" "list_all is_word (upper w2)"
        by (simp_all add: upper_Nil upper_all_word)
      from n ts2 have "normal_at False (flat ts2)"
        by (simp add: sp_space normal_word [OF w2(1,2)])
      then have "normal_at False (flat (?M False ts2))"
        using less(1) [of ts2 False] w2 2 ts2 by simp
      then have "normal_at False (flat (Sep (0x20) # Word (upper w2) # ?M False ts2))"
        using uw2 by (simp add: sp_space normal_word [OF uw2])
      with True ts2 2 show ?thesis using sp by simp
    next
      case False
      have "normal_at False (flat (?M False ts'))" using less(1) [of ts' False] ts n 2 by simp
      with False 2 w show ?thesis using sp by (simp add: normal_word [OF w])
    qed
  next
    case (3 c ts')
    with less(2) have ts: "wf ts'" by simp
    show ?thesis
    proof (cases "is_space c")
      case True
      with less(3) 3 have c: "c = 0x20" "\<not> b" "flat ts' \<noteq> []" "normal_at True (flat ts')"
        by simp_all
      from c(3) ts have "ts' \<noteq> []" by (simp add: flat_Nil)
      then have "?M True ts' \<noteq> []" by (simp add: mark_with_Nil)
      then have "flat (?M True ts') \<noteq> []" using wf_spaced [OF ts] by (simp add: flat_Nil)
      moreover have "normal_at True (flat (?M True ts'))"
        using less(1) [of ts' True] ts c 3 by simp
      ultimately show ?thesis using c True 3 by simp
    next
      case False
      with less(3) 3 have n: "normal_at False (flat ts')" by simp
      from False have "c \<noteq> 0x20" using sp_space by auto
      moreover have "normal_at False (flat (?M False ts'))"
        using less(1) [of ts' False] ts n 3 by simp
      ultimately show ?thesis using False 3 by simp
    qed
  qed
qed

lemma upper_pair_keywords: "upper_pairs pair_keywords"
  by (simp add: upper_pairs_def pair_keywords_def kw_upper)

lemma formatSQL_lines:
  "formatSQL s =
     join_nl (lines_of (foldl (\<lambda>formatted keyword. replace_word keyword None formatted)
        (trim (collapse_ws s)) formatKeywords))"
  unfolding formatSQL_def lines_of_def Let_def ..

text \<open>
  C2: the formatter is idempotent: formatting the output of the formatter gives that
  output again, for every input string.
\<close>

theorem formatSQL_idempotent: "formatSQL (formatSQL sql) = formatSQL sql"
proof -
  let ?h = "\<lambda>x. foldl (\<lambda>formatted keyword. replace_word keyword None formatted) x
              formatKeywords"
  let ?S = single_keywords and ?P = pair_keywords
  define ts where "ts = tokenize (trim (collapse_ws sql))"
  have wf: "wf ts" and flat: "flat ts = trim (collapse_ws sql)"
    unfolding ts_def by (simp_all add: wf_tokenize flat_tokenize)
  let ?x = "flat (mark ?S ?P ts)"
  let ?M = "mark_with spaced ?S ?P True ts"
  have h1: "?h (trim (collapse_ws sql)) = ?x"
    using format_closed [OF wf] flat by simp
  then have f1: "formatSQL sql = join_nl (lines_of ?x)"
    by (simp add: formatSQL_lines)
  have "normal_at True (flat ts)" unfolding flat by (rule normal_pre)
  then have nM: "normal_at True (flat ?M)" using wf by (intro normal_spaced)
  have "trim (collapse_ws (join_nl (lines_of ?x))) = join_with (0x20) (chunks ?x)"
    by (simp add: pre_chunks chunks_post)
  also have "chunks ?x = chunks (flat ?M)"
    using chunks_spaced [of True "[]" ?S ?P ts] by simp
  also have "join_with (0x20) (chunks (flat ?M)) = flat ?M"
    using nM by (rule normal_join_chunks)
  finally have pre2: "trim (collapse_ws (formatSQL sql)) = flat ?M"
    unfolding f1 .
  have "?h (flat ?M) = flat (mark ?S ?P ?M)"
    using wf by (intro format_closed wf_spaced)
  also have "mark ?S ?P ?M = mark_with (\<lambda>b. spaced b @ [Sep (0x0A)]) ?S ?P True ts"
    using upper_pair_keywords wf by (rule mark_spaced)
  finally have h2: "?h (trim (collapse_ws (formatSQL sql))) =
      flat (mark_with (\<lambda>b. spaced b @ [Sep (0x0A)]) ?S ?P True ts)"
    unfolding pre2 .
  have "formatSQL (formatSQL sql) =
      join_nl (lines_of (flat (mark_with (\<lambda>b. spaced b @ [Sep (0x0A)]) ?S ?P True ts)))"
    unfolding formatSQL_lines [of "formatSQL sql"] h2 ..
  also have "\<dots> = join_nl (lines_of ?x)"
    using lines_spaced [of "[]" ?S ?P True ts] by simp
  finally show ?thesis unfolding f1 .
qed

section \<open>Properties of the explainer\<close>

lemma parts_push: "map part (components (push_part f c st)) = map part (components st) @ [part c]"
  by (simp add: push_part_def)

lemma parts_statement:
  "map part (components (explain_statement sql u st)) = map part (components st) @
     (if str_includes u (asc ''SELECT'') then [asc ''SELECT'']
      else if str_includes u (asc ''INSERT'') then [asc ''INSERT'']
      else if str_includes u (asc ''UPDATE'') then [asc ''UPDATE'']
      else if str_includes u (asc ''DELETE'') then [asc ''DELETE'']
      else []) @
     (if str_includes u (asc ''SELECT'') \<and> re_select_star sql then [asc ''SELECT *''] else [])"
  by (simp add: explain_statement_def parts_push Let_def)

lemma parts_from:
  "map part (components (explain_from sql st)) = map part (components st) @
     (if fromMatch sql \<noteq> None then [asc ''FROM''] else [])"
  by (simp add: explain_from_def parts_push split: option.split)

lemma parts_where:
  "map part (components (explain_where u st)) = map part (components st) @
     (if str_includes u (asc ''WHERE'') then [asc ''WHERE''] else [])"
  by (simp add: explain_where_def parts_push)

lemma parts_join:
  "map part (components (explain_join u st)) = map part (components st) @
     (if str_includes u (asc ''JOIN'') then [asc ''JOIN''] else [])"
  by (simp add: explain_join_def parts_push)

lemma parts_group_by:
  "map part (components (explain_group_by u st)) = map part (components st) @
     (if str_includes u (asc ''GROUP BY'') then [asc ''GROUP BY''] else [])"
  by (simp add: explain_group_by_def parts_push)

lemma parts_order_by:
  "map part (components (explain_order_by u st)) = map part (components st) @
     (if str_includes u (asc ''ORDER BY'') then [asc ''ORDER BY''] else [])"
  by (simp add: explain_order_by_def parts_push)

lemma parts_limit:
  "map part (components (explain_limit u st)) = map part (components st) @
     (if str_includes u (asc ''LIMIT'') then [asc ''LIMIT''] else [])"
  by (simp add: explain_limit_def parts_push)

lemma explain_parts:
  "map part (components (explainSQL sql)) =
     (if str_includes (toUpperCase sql) (asc ''SELECT'') then [asc ''SELECT'']
      else if str_includes (toUpperCase sql) (asc ''INSERT'') then [asc ''INSERT'']
      else if str_includes (toUpperCase sql) (asc ''UPDATE'') then [asc ''UPDATE'']
      else if str_includes (toUpperCase sql) (asc ''DELETE'') then [asc ''DELETE'']
      else []) @
     (if str_includes (toUpperCase sql) (asc ''SELECT'') \<and> re_select_star sql
      then [asc ''SELECT *''] else []) @
     (if fromMatch sql \<noteq> None then [asc ''FROM''] else []) @
     (if str_includes (toUpperCase sql) (asc ''WHERE'') then [asc ''WHERE''] else []) @
     (if str_includes (toUpperCase sql) (asc ''JOIN'') then [asc ''JOIN''] else []) @
     (if str_includes (toUpperCase sql) (asc ''GROUP BY'') then [asc ''GROUP BY''] else []) @
     (if str_includes (toUpperCase sql) (asc ''ORDER BY'') then [asc ''ORDER BY''] else []) @
     (if str_includes (toUpperCase sql) (asc ''LIMIT'') then [asc ''LIMIT''] else [])"
  unfolding explainSQL_def Let_def parts_limit parts_order_by parts_group_by parts_join
    parts_where parts_from parts_statement
  by (simp split del: if_split)

text \<open>
  C3 as it is stated, with the one entry among \<^verbatim>\<open>SELECT\<close>, \<^verbatim>\<open>INSERT\<close>, \<^verbatim>\<open>UPDATE\<close>,
  \<^verbatim>\<open>DELETE\<close> being the first of them that occurs case-insensitively in the input,
  fails on the text that is \<^verbatim>\<open>update t\<close>, a space, the sharp s, U+00DF, and
  \<^verbatim>\<open>elect\<close>. Of the four keywords only \<^verbatim>\<open>UPDATE\<close> occurs in it, with or without
  regard to case. The explainer searches the upper-cased text, which is
  \<^verbatim>\<open>UPDATE T SSELECT\<close>, finds \<^verbatim>\<open>SELECT\<close> there first and reports \<^verbatim>\<open>SELECT\<close>.
\<close>

theorem explainSQL_components_sharp_s:
  "toUpperCase (asc ''update t '' @ 0xDF # asc ''elect'') = asc ''UPDATE T SSELECT''
   \<and> map part (components (explainSQL (asc ''update t '' @ 0xDF # asc ''elect''))) =
       [asc ''SELECT'']
   \<and> \<not> occurs_ci (asc ''SELECT'') (asc ''update t '' @ 0xDF # asc ''elect'')
   \<and> \<not> occurs_ci (asc ''INSERT'') (asc ''update t '' @ 0xDF # asc ''elect'')
   \<and> occurs_ci (asc ''UPDATE'') (asc ''update t '' @ 0xDF # asc ''elect'')"
proof -
  let ?q = "asc ''update t '' @ 0xDF # asc ''elect''"
  have u: "toUpperCase ?q = asc ''UPDATE T SSELECT''"
    by code_simp
  have c: "str_includes (asc ''UPDATE T SSELECT'') (asc ''SELECT'')"
    "\<not> str_includes (asc ''UPDATE T SSELECT'') (asc ''WHERE'')"
    "\<not> str_includes (asc ''UPDATE T SSELECT'') (asc ''JOIN'')"
    "\<not> str_includes (asc ''UPDATE T SSELECT'') (asc ''GROUP BY'')"
    "\<not> str_includes (asc ''UPDATE T SSELECT'') (asc ''ORDER BY'')"
    "\<not> str_includes (asc ''UPDATE T SSELECT'') (asc ''LIMIT'')"
    by code_simp+
  have r: "\<not> re_select_star ?q" "fromMatch ?q = None"
    by code_simp+
  have p: "map part (components (explainSQL ?q)) = [asc ''SELECT'']"
    unfolding explain_parts u using c r by simp
  have o: "\<not> str_includes (upper ?q) (asc ''SELECT'')"
    "\<not> str_includes (upper ?q) (asc ''INSERT'')"
    "str_includes (upper ?q) (asc ''UPDATE'')"
    by code_simp+
  from u p o show ?thesis by (simp add: includes_upper_iff upper_kw)
qed

text \<open>
  C3, amended: the parts of the components of \<open>explainSQL\<close> are, in this order: the
  first of \<^verbatim>\<open>SELECT\<close>, \<^verbatim>\<open>INSERT\<close>, \<^verbatim>\<open>UPDATE\<close>, \<^verbatim>\<open>DELETE\<close> that is a substring of the
  upper-cased input (at most one of the four), the entry \<^verbatim>\<open>SELECT *\<close> of the
  \<^verbatim>\<open>SELECT\<close> branch, \<^verbatim>\<open>FROM\<close> when the pattern \<^verbatim>\<open>/FROM\s+(\w+)/i\<close> matches, and then
  \<^verbatim>\<open>WHERE\<close>, \<^verbatim>\<open>JOIN\<close>, \<^verbatim>\<open>GROUP BY\<close>, \<^verbatim>\<open>ORDER BY\<close>, \<^verbatim>\<open>LIMIT\<close>, each present when it
  is a substring of the upper-cased input. For an input of ASCII characters a keyword
  is a substring of the upper-cased input exactly when it occurs case-insensitively in
  the input. On the query of the specification the parts are exactly \<^verbatim>\<open>SELECT\<close>,
  \<^verbatim>\<open>FROM\<close>, \<^verbatim>\<open>WHERE\<close>, \<^verbatim>\<open>ORDER BY\<close>.
\<close>

theorem explainSQL_components:
  "map part (components (explainSQL sql)) =
     (if str_includes (toUpperCase sql) (asc ''SELECT'') then [asc ''SELECT'']
      else if str_includes (toUpperCase sql) (asc ''INSERT'') then [asc ''INSERT'']
      else if str_includes (toUpperCase sql) (asc ''UPDATE'') then [asc ''UPDATE'']
      else if str_includes (toUpperCase sql) (asc ''DELETE'') then [asc ''DELETE'']
      else []) @
     (if str_includes (toUpperCase sql) (asc ''SELECT'') \<and> re_select_star sql
      then [asc ''SELECT *''] else []) @
     (if fromMatch sql \<noteq> None then [asc ''FROM''] else []) @
     (if str_includes (toUpperCase sql) (asc ''WHERE'') then [asc ''WHERE''] else []) @
     (if str_includes (toUpperCase sql) (asc ''JOIN'') then [asc ''JOIN''] else []) @
     (if str_includes (toUpperCase sql) (asc ''GROUP BY'') then [asc ''GROUP BY''] else []) @
     (if str_includes (toUpperCase sql) (asc ''ORDER BY'') then [asc ''ORDER BY''] else []) @
     (if str_includes (toUpperCase sql) (asc ''LIMIT'') then [asc ''LIMIT''] else [])
   \<and> (list_all is_ascii sql \<longrightarrow>
        map part (components (explainSQL sql)) =
          (if occurs_ci (asc ''SELECT'') sql then [asc ''SELECT'']
           else if occurs_ci (asc ''INSERT'') sql then [asc ''INSERT'']
           else if occurs_ci (asc ''UPDATE'') sql then [asc ''UPDATE'']
           else if occurs_ci (asc ''DELETE'') sql then [asc ''DELETE'']
           else []) @
          (if occurs_ci (asc ''SELECT'') sql \<and> re_select_star sql
           then [asc ''SELECT *''] else []) @
          (if fromMatch sql \<noteq> None then [asc ''FROM''] else []) @
          (if occurs_ci (asc ''WHERE'') sql then [asc ''WHERE''] else []) @
          (if occurs_ci (asc ''JOIN'') sql then [asc ''JOIN''] else []) @
          (if occurs_ci (asc ''GROUP BY'') sql then [asc ''GROUP BY''] else []) @
          (if occurs_ci (asc ''ORDER BY'') sql then [asc ''ORDER BY''] else []) @
          (if occurs_ci (asc ''LIMIT'') sql then [asc ''LIMIT''] else []))
   \<and> length (filter (\<lambda>p. p \<in> set [asc ''SELECT'', asc ''INSERT'', asc ''UPDATE'', asc ''DELETE''])
        (map part (components (explainSQL sql)))) \<le> 1
   \<and> map part (components
        (explainSQL (asc ''SELECT id FROM users WHERE active=true ORDER BY id''))) =
       [asc ''SELECT'', asc ''FROM'', asc ''WHERE'', asc ''ORDER BY'']"
proof -
  let ?q = "asc ''SELECT id FROM users WHERE active=true ORDER BY id''"
  have c: "str_includes (toUpperCase ?q) (asc ''SELECT'')"
    "str_includes (toUpperCase ?q) (asc ''WHERE'')"
    "\<not> str_includes (toUpperCase ?q) (asc ''JOIN'')"
    "\<not> str_includes (toUpperCase ?q) (asc ''GROUP BY'')"
    "str_includes (toUpperCase ?q) (asc ''ORDER BY'')"
    "\<not> str_includes (toUpperCase ?q) (asc ''LIMIT'')"
    "\<not> re_select_star ?q" "fromMatch ?q \<noteq> None"
    by code_simp+
  have ex: "map part (components (explainSQL ?q)) =
      [asc ''SELECT'', asc ''FROM'', asc ''WHERE'', asc ''ORDER BY'']"
    unfolding explain_parts using c by simp
  have le: "length (filter (\<lambda>p. p \<in> set [asc ''SELECT'', asc ''INSERT'', asc ''UPDATE'',
        asc ''DELETE'']) (map part (components (explainSQL sql)))) \<le> 1"
    unfolding explain_parts by simp
  have "map part (components (explainSQL sql)) =
     (if occurs_ci (asc ''SELECT'') sql then [asc ''SELECT'']
      else if occurs_ci (asc ''INSERT'') sql then [asc ''INSERT'']
      else if occurs_ci (asc ''UPDATE'') sql then [asc ''UPDATE'']
      else if occurs_ci (asc ''DELETE'') sql then [asc ''DELETE'']
      else []) @
     (if occurs_ci (asc ''SELECT'') sql \<and> re_select_star sql
      then [asc ''SELECT *''] else []) @
     (if fromMatch sql \<noteq> None then [asc ''FROM''] else []) @
     (if occurs_ci (asc ''WHERE'') sql then [asc ''WHERE''] else []) @
     (if occurs_ci (asc ''JOIN'') sql then [asc ''JOIN''] else []) @
     (if occurs_ci (asc ''GROUP BY'') sql then [asc ''GROUP BY''] else []) @
     (if occurs_ci (asc ''ORDER BY'') sql then [asc ''ORDER BY''] else []) @
     (if occurs_ci (asc ''LIMIT'') sql then [asc ''LIMIT''] else [])"
    if "list_all is_ascii sql"
    unfolding explain_parts toUpperCase_ascii [OF that]
    by (simp only: includes_upper_iff upper_kw)
  with ex le explain_parts [of sql] show ?thesis by blast
qed

theorem explainSQL_components_witness:
  "list_all is_ascii (asc ''insert into t select 1'')
   \<and> occurs_ci (asc ''SELECT'') (asc ''insert into t select 1'')
   \<and> occurs_ci (asc ''INSERT'') (asc ''insert into t select 1'')
   \<and> map part (components (explainSQL (asc ''insert into t select 1''))) = [asc ''SELECT'']"
proof -
  let ?q = "asc ''insert into t select 1''"
  have a: "list_all is_ascii ?q"
    by (simp add: asc_ascii)
  have o: "str_includes (upper ?q) (asc ''SELECT'')"
    "str_includes (upper ?q) (asc ''INSERT'')"
    "\<not> str_includes (upper ?q) (asc ''WHERE'')"
    "\<not> str_includes (upper ?q) (asc ''JOIN'')"
    "\<not> str_includes (upper ?q) (asc ''GROUP BY'')"
    "\<not> str_includes (upper ?q) (asc ''ORDER BY'')"
    "\<not> str_includes (upper ?q) (asc ''LIMIT'')"
    "\<not> re_select_star ?q" "fromMatch ?q = None"
    by code_simp+
  then have "occurs_ci (asc ''SELECT'') ?q" "occurs_ci (asc ''INSERT'') ?q"
    "\<not> occurs_ci (asc ''WHERE'') ?q" "\<not> occurs_ci (asc ''JOIN'') ?q"
    "\<not> occurs_ci (asc ''GROUP BY'') ?q" "\<not> occurs_ci (asc ''ORDER BY'') ?q"
    "\<not> occurs_ci (asc ''LIMIT'') ?q"
    by (simp_all add: includes_upper_iff upper_kw)
  with a o(8,9) explainSQL_components [of ?q, THEN conjunct2, THEN conjunct1, THEN mp, OF a]
  show ?thesis by simp
qed

section \<open>Properties of the schema lookup\<close>

text \<open>
  What holds of the lookup: a table type that is, lower-cased, neither one of the three
  entries nor a property name of \<^verbatim>\<open>Object.prototype\<close> gets the fallback record with
  the input verbatim in its example, and \<^verbatim>\<open>USERS\<close> gets the record of \<^verbatim>\<open>users\<close>.
\<close>

lemma getSchemaInfo_fallback:
  assumes "toLowerCase tableType \<notin> set [asc ''users'', asc ''products'', asc ''orders'']"
    and "toLowerCase tableType \<notin> set object_prototype_keys"
  shows "getSchemaInfo tableType = Schema (fallback_schema tableType)"
  using assms unfolding getSchemaInfo_def schemas_get_def schemas_def Let_def
  by simp

lemma lower_keys:
  "toLowerCase (asc ''USERS'') = asc ''users''"
  "toLowerCase (asc ''users'') = asc ''users''"
  "toLowerCase (asc ''constructor'') = asc ''constructor''"
  "toLowerCase (asc ''__proto__'') = asc ''__proto__''"
  by code_simp+

lemma getSchemaInfo_USERS: "getSchemaInfo (asc ''USERS'') = getSchemaInfo (asc ''users'')"
  by (simp add: getSchemaInfo_def schemas_get_def schemas_def lower_keys)

text \<open>
  C4: every table type whose lower-cased form is not \<^verbatim>\<open>users\<close>, \<^verbatim>\<open>products\<close> or
  \<^verbatim>\<open>orders\<close> is to get the fallback record. For \<^verbatim>\<open>constructor\<close> the lookup
  \<^verbatim>\<open>schemas[lowerTableType]\<close> finds the property inherited from
  \<^verbatim>\<open>Object.prototype\<close>, which is truthy, so \<open>getSchemaInfo\<close> returns that function
  and not the fallback record.
\<close>

theorem getSchemaInfo_constructor:
  "toLowerCase (asc ''constructor'') \<notin> set [asc ''users'', asc ''products'', asc ''orders'']
   \<and> getSchemaInfo (asc ''constructor'') = ObjectPrototypeMember (asc ''constructor'')
   \<and> getSchemaInfo (asc ''constructor'') \<noteq> Schema (fallback_schema (asc ''constructor''))"
  by (simp add: getSchemaInfo_def schemas_get_def schemas_def lower_keys
      object_prototype_keys_def)

text \<open>
  C8: every text-analysis function is to return a well-formed result record on every
  input string. For \<^verbatim>\<open>__proto__\<close> \<open>getSchemaInfo\<close> returns \<^verbatim>\<open>Object.prototype\<close>, which
  is no schema record.
\<close>

theorem getSchemaInfo_proto_no_record:
  "getSchemaInfo (asc ''__proto__'') = ObjectPrototypeMember (asc ''__proto__'')
   \<and> (\<nexists>r. getSchemaInfo (asc ''__proto__'') = Schema r)"
  by (simp add: getSchemaInfo_def schemas_get_def schemas_def lower_keys
      object_prototype_keys_def)

section \<open>Properties of the optimizer\<close>

text \<open>
  C7: the performance summary of \<open>optimizeSQL\<close> is the "multiple optimization
  opportunities" sentence exactly when the list of improvements has more than two
  entries, and the "relatively optimized" sentence otherwise; the note about EXPLAIN
  is always the last improvement, so it counts toward the threshold and the list is
  never empty.
\<close>

theorem optimizeSQL_performance:
  "performance (optimizeSQL sql) =
     (if length (improvements (optimizeSQL sql)) > 2
      then asc ''This query has multiple optimization opportunities''
      else asc ''This query looks relatively optimized'')
   \<and> improvements (optimizeSQL sql) \<noteq> []
   \<and> last (improvements (optimizeSQL sql)) =
       asc ''Use EXPLAIN or EXPLAIN ANALYZE to understand query execution plan''"
  unfolding optimizeSQL_def Let_def by simp

lemma replace_ci_none: "\<not> occurs_ci k s \<Longrightarrow> replace_ci k r s = s"
  by (induction s) (auto simp: occurs_ci_Cons)

lemma replace_ci_segments:
  assumes "k \<noteq> []"
  shows "\<exists>ps z. s = concat (map (\<lambda>(u, m). u @ m) ps) @ z \<and>
           replace_ci k r s = concat (map (\<lambda>(u, m). u @ r) ps) @ z \<and>
           (\<forall>(u, m) \<in> set ps. list_all2 eq_ci m k \<and> \<not> occurs_ci k (u @ butlast m)) \<and>
           \<not> occurs_ci k z"
  using assms
proof (induction k r s rule: replace_ci.induct)
  case (1 k r)
  have "[] = concat (map (\<lambda>(u, m). u @ m) []) @ ([]::jstring) \<and>
        replace_ci k r [] = concat (map (\<lambda>(u, m). u @ r) []) @ [] \<and>
        (\<forall>(u, m) \<in> set []. list_all2 eq_ci m k \<and> \<not> occurs_ci k (u @ butlast m)) \<and>
        \<not> occurs_ci k []"
    using 1 by (simp add: occurs_ci_Nil)
  then show ?case by blast
next
  case (2 k r c cs)
  show ?case
  proof (cases "match_ci k (c # cs)")
    case True
    let ?m = "take (length k) (c # cs)"
    let ?rest = "drop (length k) (c # cs)"
    from 2(1) [OF _ 2(3)] True 2(3) obtain ps z where
      ih: "?rest = concat (map (\<lambda>(u, m). u @ m) ps) @ z"
          "replace_ci k r ?rest = concat (map (\<lambda>(u, m). u @ r) ps) @ z"
          "\<forall>(u, m) \<in> set ps. list_all2 eq_ci m k \<and> \<not> occurs_ci k (u @ butlast m)"
          "\<not> occurs_ci k z"
      by blast
    from True have m: "list_all2 eq_ci ?m k" "length ?m = length k"
      by (simp_all add: match_ci_iff list_all2_eq_ci)
    from m(2) 2(3) have "length (butlast ?m) < length k" by (cases k) simp_all
    then have nb: "\<not> occurs_ci k ([] @ butlast ?m)" by (simp add: occurs_ci_short)
    have "c # cs = concat (map (\<lambda>(u, m). u @ m) (([], ?m) # ps)) @ z"
      using ih(1) [symmetric] by simp
    moreover have "replace_ci k r (c # cs) = concat (map (\<lambda>(u, m). u @ r) (([], ?m) # ps)) @ z"
      using True 2(3) ih(2) by simp
    moreover have "\<forall>(u, m) \<in> set (([], ?m) # ps). list_all2 eq_ci m k \<and> \<not> occurs_ci k (u @ butlast m)"
      using ih(3) m(1) nb by simp
    ultimately show ?thesis using ih(4) by blast
  next
    case False
    from 2(2) [OF _ 2(3)] False obtain ps z where
      ih: "cs = concat (map (\<lambda>(u, m). u @ m) ps) @ z"
          "replace_ci k r cs = concat (map (\<lambda>(u, m). u @ r) ps) @ z"
          "\<forall>(u, m) \<in> set ps. list_all2 eq_ci m k \<and> \<not> occurs_ci k (u @ butlast m)"
          "\<not> occurs_ci k z"
      by blast
    show ?thesis
    proof (cases ps)
      case Nil
      with ih have "cs = z" by simp
      with False ih(4) have "\<not> occurs_ci k (c # z)" by (simp add: occurs_ci_Cons)
      moreover have "c # cs = concat (map (\<lambda>(u, m). u @ m) []) @ (c # z)"
        using \<open>cs = z\<close> by simp
      moreover have "replace_ci k r (c # cs) = concat (map (\<lambda>(u, m). u @ r) []) @ (c # z)"
        using False ih(2) Nil by simp
      moreover have "\<forall>(u, m) \<in> set []. list_all2 eq_ci m k \<and> \<not> occurs_ci k (u @ butlast m)"
        by simp
      ultimately show ?thesis by blast
    next
      case (Cons p ps')
      obtain u m where p: "p = (u, m)" by (cases p)
      from ih(3) Cons p have um: "list_all2 eq_ci m k" "\<not> occurs_ci k (u @ butlast m)" by auto
      from um(1) 2(3) have "m \<noteq> []" by auto
      then obtain b l where ml: "m = b @ [l]" by (cases m rule: rev_cases) auto
      have "cs = (u @ b) @ l # concat (map (\<lambda>(u, m). u @ m) ps') @ z"
        using ih(1) Cons p ml by simp
      then have "c # cs = (c # u @ b) @ (l # concat (map (\<lambda>(u, m). u @ m) ps') @ z)"
        by simp
      with False have "\<not> match_ci k (c # u @ b)"
        using match_ci_append by metis
      with um(2) ml have nocc: "\<not> occurs_ci k ((c # u) @ butlast m)"
        by (simp add: occurs_ci_Cons)
      have "c # cs = concat (map (\<lambda>(u, m). u @ m) ((c # u, m) # ps')) @ z"
        using ih(1) Cons p by simp
      moreover have "replace_ci k r (c # cs) = concat (map (\<lambda>(u, m). u @ r) ((c # u, m) # ps')) @ z"
        using False ih(2) Cons p by simp
      moreover have "\<forall>(u, m) \<in> set ((c # u, m) # ps'). list_all2 eq_ci m k \<and> \<not> occurs_ci k (u @ butlast m)"
        using ih(3) Cons p um(1) nocc by simp
      ultimately show ?thesis using ih(4) by blast
    qed
  qed
qed

text \<open>
  C6: the field \<open>optimized\<close> of \<open>optimizeSQL\<close> is the input with every
  case-insensitive occurrence of \<^verbatim>\<open>NOT IN\<close> replaced by \<^verbatim>\<open>NOT EXISTS\<close>: the input is a
  sequence of pieces \<open>u @ m\<close> and a rest \<open>z\<close>, where each \<open>m\<close> equals \<^verbatim>\<open>NOT IN\<close> ignoring
  case and is the first occurrence in its piece, and \<open>z\<close> has no occurrence; the output
  is the same sequence with \<^verbatim>\<open>NOT EXISTS\<close> for each \<open>m\<close>. Without an occurrence the output
  is the input.
\<close>

theorem optimizeSQL_rewrite:
  "(\<exists>ps z. sql = concat (map (\<lambda>(u, m). u @ m) ps) @ z \<and>
      optimized (optimizeSQL sql) = concat (map (\<lambda>(u, m). u @ asc ''NOT EXISTS'') ps) @ z \<and>
      (\<forall>(u, m) \<in> set ps. list_all2 eq_ci m (asc ''NOT IN'') \<and> \<not> occurs_ci (asc ''NOT IN'') (u @ butlast m)) \<and>
      \<not> occurs_ci (asc ''NOT IN'') z)
   \<and> (\<not> occurs_ci (asc ''NOT IN'') sql \<longrightarrow> optimized (optimizeSQL sql) = sql)"
proof -
  have opt: "optimized (optimizeSQL sql) = replace_ci (asc ''NOT IN'') (asc ''NOT EXISTS'') sql"
  proof (cases "occurs_ci (asc ''NOT IN'') sql")
    case True
    then have "str_includes (toUpperCase sql) (asc ''NOT IN'')"
      by (intro occurs_ci_includes upper_kw ascii_kw)
    then show ?thesis
      unfolding optimizeSQL_def Let_def by simp
  next
    case False
    then show ?thesis
      unfolding optimizeSQL_def Let_def by (simp add: replace_ci_none)
  qed
  have "asc ''NOT IN'' \<noteq> []" by (simp add: asc_def)
  from replace_ci_segments [OF this, of sql "asc ''NOT EXISTS''"] show ?thesis
    unfolding opt using replace_ci_none by blast
qed

theorem optimizeSQL_rewrite_witness:
  "\<not> occurs_ci (asc ''NOT IN'') (asc ''SELECT 1'') \<and> optimized (optimizeSQL (asc ''SELECT 1'')) = asc ''SELECT 1''"
proof -
  have "\<not> str_includes (upper (asc ''SELECT 1'')) (asc ''NOT IN'')" by code_simp
  then have "\<not> occurs_ci (asc ''NOT IN'') (asc ''SELECT 1'')" by (simp add: includes_upper_iff upper_kw)
  with optimizeSQL_rewrite [of "asc ''SELECT 1''"] show ?thesis by blast
qed

section \<open>Properties of the scorers\<close>

lemma truthy_iff: "truthy b = (b = Some True)"
  by (cases b) (simp_all add: truthy_def)

lemma issues_case:
  "(case x of None \<Rightarrow> a | Some issues \<Rightarrow> if length issues > 0 then b else a) =
   (if x = None \<or> x = Some [] then a else b)"
  by (cases x) auto

text \<open>
  C9: for every verdict of the intent judge, also a missing or partial one, the
  intent-match score is the verdict's confidence when \<open>matchesIntent\<close> is true, 0.9 when
  \<open>matchesIntent\<close> is true and the confidence is missing, and 0.2 when \<open>matchesIntent\<close>
  is false or missing, whatever the confidence.
\<close>

theorem intentMatch_score:
  "intentMatch_generateScore None = Finite 0.2
   \<and> intentMatch_generateScore (Some r) =
       (if matchesIntent r = Some True
        then (case intentConfidence r of None \<Rightarrow> Finite 0.9 | Some c \<Rightarrow> c)
        else Finite 0.2)"
  by (cases "matchesIntent r")
     (simp_all add: intentMatch_generateScore_def empty_intent_verdict_def truthy_def
        nullish_or_def)

lemma score_formula:
  "sqlCorrectness_generateScore (Some r) =
     math_max (Finite 0) (math_min (Finite 1) (js_times (spec_base r) (spec_confidence r)))"
proof -
  have "spec_base r =
    (let score0 = 1.0;
         score1 = (if \<not> truthy (isSyntacticallyCorrect r) then score0 - 0.5 else score0);
         score2 = (if \<not> truthy (hasBestPractices r) then score1 - 0.2 else score1)
     in (case securityIssues r of
           None \<Rightarrow> score2
         | Some issues \<Rightarrow> if length issues > 0 then score2 - 0.3 else score2))"
    unfolding Let_def issues_case truthy_iff spec_base_def by simp
  then show ?thesis
    unfolding sqlCorrectness_generateScore_def Let_def spec_confidence_def nullish_or_def
    by simp
qed

lemma spec_base_range: "0 \<le> spec_base r \<and> spec_base r \<le> 1"
  by (simp add: spec_base_def)

lemma clamp_cases:
  assumes "0 \<le> b"
  shows "math_max (Finite 0) (math_min (Finite 1) (js_times b x)) =
     (case x of
        Finite c \<Rightarrow> Finite (max 0 (min 1 (b * c)))
      | PosInfinity \<Rightarrow> if b = 0 then NaN else Finite 1
      | NegInfinity \<Rightarrow> if b = 0 then NaN else Finite 0
      | NaN \<Rightarrow> NaN)"
  using assms by (cases x) (auto simp: math_max_def math_min_def)

text \<open>
  C10 as it is stated, with a score that always lies between 0 and 1, also for an
  arbitrary verdict, fails on the two verdicts below. In the first all three deductions
  apply, so the base is 0, and the confidence is infinite (a number too large for a
  double, as in the JSON text \<^verbatim>\<open>1e999\<close>): the product of 0 and infinity is
  \<^verbatim>\<open>NaN\<close>. In the second no deduction applies and the confidence has the value
  \<^verbatim>\<open>NaN\<close> (as the text \<^verbatim>\<open>high\<close> has): the product is \<^verbatim>\<open>NaN\<close> again.
  \<^verbatim>\<open>Math.min\<close> and \<^verbatim>\<open>Math.max\<close> hand \<^verbatim>\<open>NaN\<close> on, and the score is \<^verbatim>\<open>NaN\<close>.
\<close>

theorem sqlCorrectness_score_nan:
  "sqlCorrectness_generateScore
     (Some \<lparr> isSyntacticallyCorrect = Some False, hasBestPractices = Some False,
             securityIssues = Some [asc ''injection''], confidence = Some PosInfinity,
             feedback = None \<rparr>) = NaN
   \<and> \<not> in_unit (sqlCorrectness_generateScore
         (Some \<lparr> isSyntacticallyCorrect = Some False, hasBestPractices = Some False,
                 securityIssues = Some [asc ''injection''], confidence = Some PosInfinity,
                 feedback = None \<rparr>))
   \<and> sqlCorrectness_generateScore
       (Some \<lparr> isSyntacticallyCorrect = Some True, hasBestPractices = Some True,
               securityIssues = Some [], confidence = Some NaN, feedback = None \<rparr>) = NaN
   \<and> \<not> in_unit (sqlCorrectness_generateScore
         (Some \<lparr> isSyntacticallyCorrect = Some True, hasBestPractices = Some True,
                 securityIssues = Some [], confidence = Some NaN, feedback = None \<rparr>))"
  by (simp add: sqlCorrectness_generateScore_def truthy_def nullish_or_def math_max_def
      math_min_def)

text \<open>
  C10, amended: for every verdict of the correctness judge, also a missing or partial
  one, the correctness score is \<^verbatim>\<open>Math.max(0, Math.min(1, base * confidence))\<close>, where
  the base is 1 less 0.5 when \<open>isSyntacticallyCorrect\<close> is false or missing, less 0.2
  when \<open>hasBestPractices\<close> is false or missing, less 0.3 when \<open>securityIssues\<close> is
  present and not empty, and the confidence is 1 when missing. For a finite confidence
  \<open>c\<close> this is the number \<open>max 0 (min 1 (base * c))\<close>, for an infinite one it is 1 or 0
  by the sign unless the base is 0, and it is \<^verbatim>\<open>NaN\<close> when the confidence is
  \<^verbatim>\<open>NaN\<close> or is infinite while the base is 0. So the score lies between 0 and 1
  whenever the confidence is missing or finite, and in all cases but the last. Without
  a step result the score is 0.3.
\<close>

theorem sqlCorrectness_score:
  "sqlCorrectness_generateScore (Some r) =
     math_max (Finite 0) (math_min (Finite 1) (js_times (spec_base r) (spec_confidence r)))
   \<and> sqlCorrectness_generateScore (Some r) =
       (case spec_confidence r of
          Finite c \<Rightarrow> Finite (max 0 (min 1 (spec_base r * c)))
        | PosInfinity \<Rightarrow> if spec_base r = 0 then NaN else Finite 1
        | NegInfinity \<Rightarrow> if spec_base r = 0 then NaN else Finite 0
        | NaN \<Rightarrow> NaN)
   \<and> in_unit (sqlCorrectness_generateScore (Some r)) =
       (case spec_confidence r of
          Finite c \<Rightarrow> True
        | PosInfinity \<Rightarrow> spec_base r \<noteq> 0
        | NegInfinity \<Rightarrow> spec_base r \<noteq> 0
        | NaN \<Rightarrow> False)
   \<and> sqlCorrectness_generateScore None = Finite 0.3
   \<and> in_unit (sqlCorrectness_generateScore None)"
proof -
  have a: "sqlCorrectness_generateScore (Some r) =
      (case spec_confidence r of
          Finite c \<Rightarrow> Finite (max 0 (min 1 (spec_base r * c)))
        | PosInfinity \<Rightarrow> if spec_base r = 0 then NaN else Finite 1
        | NegInfinity \<Rightarrow> if spec_base r = 0 then NaN else Finite 0
        | NaN \<Rightarrow> NaN)"
    unfolding score_formula using spec_base_range [of r] by (intro clamp_cases) simp
  have b: "in_unit (sqlCorrectness_generateScore (Some r)) =
       (case spec_confidence r of
          Finite c \<Rightarrow> True
        | PosInfinity \<Rightarrow> spec_base r \<noteq> 0
        | NegInfinity \<Rightarrow> spec_base r \<noteq> 0
        | NaN \<Rightarrow> False)"
    unfolding a by (cases "spec_confidence r") simp_all
  have c: "sqlCorrectness_generateScore None = Finite 0.3"
    by (simp add: sqlCorrectness_generateScore_def empty_correctness_verdict_def truthy_def
        nullish_or_def math_max_def math_min_def)
  from score_formula [of r] a b c show ?thesis by simp
qed

end
